theory Spec2Isabelle
  imports Main "HOL-Library.AList" "HOL-Library.Product_Lexorder" "HOL-Library.Multiset"
begin

section \<open>Data model\<close>

text \<open>
  The solver of \<^verbatim>\<open>generate.py\<close> works on a \<^verbatim>\<open>Crossword\<close> object whose class is
  imported from another module. A \<^verbatim>\<open>Variable\<close> is a value with fields
  \<^verbatim>\<open>i\<close>, \<^verbatim>\<open>j\<close>, \<^verbatim>\<open>direction\<close> and \<^verbatim>\<open>length\<close>, compared structurally.
\<close>

datatype direction = ACROSS | DOWN

record variable =
  var_i :: nat
  var_j :: nat
  var_direction :: direction
  var_length :: nat

text \<open>
  Of the crossword the solver reads \<^verbatim>\<open>variables\<close> (a Python set), \<^verbatim>\<open>words\<close> (a set
  of strings) and \<^verbatim>\<open>overlaps\<close>, a dict from ordered pairs of variables to either
  \<^verbatim>\<open>None\<close> or an index pair. A Python set is modelled by the list of its elements in
  iteration order (any list is admitted, so every order is covered; removing an element
  keeps the order of the others), the table by a function into \<open>option\<close>: the outer
  \<open>None\<close> is a missing key, \<open>Some None\<close> the entry \<^verbatim>\<open>None\<close>. Indices are natural
  numbers. An exception of the program is a value \<open>Inl e\<close> of the model.
\<close>

record crossword =
  variables :: "variable list"
  words :: "string list"
  overlaps :: "variable \<times> variable \<Rightarrow> (nat \<times> nat) option option"

text \<open>
  Whether the table holds an index pair for the ordered pair \<open>(x, y)\<close>.
\<close>

definition has_overlap :: "crossword \<Rightarrow> variable \<Rightarrow> variable \<Rightarrow> bool" where
  "has_overlap cw x y = (case overlaps cw (x, y) of Some (Some ij) \<Rightarrow> True | _ \<Rightarrow> False)"

text \<open>
  Modelled from the spec: the method \<^verbatim>\<open>Crossword.neighbors\<close> is not part of
  \<^verbatim>\<open>generate.py\<close>. The specification defines \<^verbatim>\<open>neighbors(v)\<close> as all variables
  with a defined overlap with \<^verbatim>\<open>v\<close>, the overlap table being defined on pairs of
  two different variables.
\<close>

definition neighbors :: "crossword \<Rightarrow> variable \<Rightarrow> variable list" where
  "neighbors cw var = [v \<leftarrow> variables cw. v \<noteq> var \<and> has_overlap cw var v]"

text \<open>
  The two dicts of the solver, \<^verbatim>\<open>self.domains\<close> and the assignment, are association
  lists in insertion order: a lookup is \<^const>\<open>map_of\<close>, the assignment
  \<^verbatim>\<open>d[k] = v\<close> is \<^const>\<open>AList.update\<close> (which keeps the position of an existing key
  and appends a new one), \<^verbatim>\<open>del d[k]\<close> is \<^const>\<open>AList.delete\<close>. A domain, a Python
  set of words, is the list of its words in iteration order.

  Every variable owns its set object (\<^verbatim>\<open>__init__\<close> copies the word list for each
  variable); the set objects are changed in place only by \<^verbatim>\<open>remove\<close> in
  \<^verbatim>\<open>enforce_node_consistency\<close> and \<^verbatim>\<open>revise\<close>, on the set of one variable, so a
  domain store with value semantics describes the heap of the program.
\<close>

type_synonym domains = "(variable \<times> string list) list"
type_synonym assignment = "(variable \<times> string) list"

datatype error = KeyError | IndexError | TypeError

definition init_domains :: "crossword \<Rightarrow> domains" where
  "init_domains cw = map (\<lambda>var. (var, words cw)) (variables cw)"

section \<open>Node consistency\<close>

text \<open>
  \<^verbatim>\<open>for word in ws: s.remove(word)\<close>. Both callers collect \<^verbatim>\<open>ws\<close> from the
  set \<^verbatim>\<open>s\<close> itself just before, so \<^verbatim>\<open>remove\<close> never raises here.
\<close>

fun remove_words :: "string list \<Rightarrow> string list \<Rightarrow> string list" where
  "remove_words [] s = s"
| "remove_words (word # ws) s = remove_words ws (removeAll word s)"

definition enforce_node_consistency :: "domains \<Rightarrow> domains" where
  "enforce_node_consistency d =
     map (\<lambda>(variable, s).
            (variable, remove_words [word \<leftarrow> s. length word \<noteq> var_length variable] s)) d"

section \<open>Arc consistency\<close>

text \<open>
  The inner loop of \<^verbatim>\<open>revise\<close>: is there a word of \<^verbatim>\<open>domains[y]\<close> whose letter
  \<^verbatim>\<open>j\<close> is letter \<^verbatim>\<open>i\<close> of \<^verbatim>\<open>word_x\<close>? The loop stops at the first match; an index
  out of range raises.
\<close>

fun find_match :: "string \<Rightarrow> nat \<Rightarrow> nat \<Rightarrow> string list \<Rightarrow> error + bool" where
  "find_match word_x i j [] = Inr False"
| "find_match word_x i j (word_y # ys) =
     (if length word_x \<le> i \<or> length word_y \<le> j then Inl IndexError
      else if word_x ! i = word_y ! j then Inr True
      else find_match word_x i j ys)"

text \<open>The outer loop of \<^verbatim>\<open>revise\<close>, which builds \<^verbatim>\<open>to_remove\<close>.\<close>

fun to_remove :: "domains \<Rightarrow> variable \<Rightarrow> nat \<Rightarrow> nat \<Rightarrow> string list \<Rightarrow> error + string list" where
  "to_remove d y i j [] = Inr []"
| "to_remove d y i j (word_x # xs) =
     (case map_of d y of
        None \<Rightarrow> Inl KeyError
      | Some dy \<Rightarrow>
          (case find_match word_x i j dy of
             Inl e \<Rightarrow> Inl e
           | Inr match_found \<Rightarrow>
               (case to_remove d y i j xs of
                  Inl e \<Rightarrow> Inl e
                | Inr r \<Rightarrow> Inr (if match_found then r else word_x # r))))"

definition revise :: "crossword \<Rightarrow> domains \<Rightarrow> variable \<Rightarrow> variable \<Rightarrow> error + (bool \<times> domains)" where
  "revise cw d x y =
     (case overlaps cw (x, y) of
        None \<Rightarrow> Inl KeyError
      | Some None \<Rightarrow> Inr (False, d)
      | Some (Some (i, j)) \<Rightarrow>
          (case map_of d x of
             None \<Rightarrow> Inl KeyError
           | Some dx \<Rightarrow>
               (case to_remove d y i j dx of
                  Inl e \<Rightarrow> Inl e
                | Inr r \<Rightarrow> Inr (r \<noteq> [], AList.update x (remove_words r dx) d))))"

definition domain_total :: "domains \<Rightarrow> nat" where
  "domain_total d = sum_list (map (\<lambda>(v, s). length s) d)"

function ac3_loop :: "crossword \<Rightarrow> domains \<Rightarrow> (variable \<times> variable) list \<Rightarrow> error + (bool \<times> domains)" where
  "ac3_loop cw d [] = Inr (True, d)"
| "ac3_loop cw d ((x, y) # queue) =
     (case revise cw d x y of
        Inl e \<Rightarrow> Inl e
      | Inr (revised, d') \<Rightarrow>
          (if revised then
             (case map_of d' x of
                None \<Rightarrow> Inl KeyError
              | Some dx \<Rightarrow>
                  (if length dx = 0 then Inr (False, d')
                   else ac3_loop cw d'
                          (queue @ map (\<lambda>neighbor. (neighbor, x)) (removeAll y (neighbors cw x)))))
           else ac3_loop cw d' queue))"
  by pat_completeness auto

lemma remove_words_filter: "remove_words ws s = [w \<leftarrow> s. w \<notin> set ws]"
  by (induction ws arbitrary: s) (auto simp: removeAll_filter_not_eq intro: filter_cong)

lemma to_remove_sub: "to_remove d y i j xs = Inr r \<Longrightarrow> set r \<subseteq> set xs"
  by (induction xs arbitrary: r) (auto split: option.splits sum.splits if_splits)

lemma domain_total_update:
  "map_of d x = Some dx \<Longrightarrow>
   domain_total (AList.update x s d) + length dx = domain_total d + length s"
  by (induction d) (auto simp: domain_total_def)

lemma length_filter_notin_less:
  assumes "r \<noteq> []" "set r \<subseteq> set dx"
  shows "length [w \<leftarrow> dx. w \<notin> set r] < length dx"
proof -
  from assms obtain w where "w \<in> set dx" "w \<in> set r" by (cases r) auto
  then show ?thesis by (intro length_filter_less[of w]) auto
qed

lemma revise_cases:
  assumes "revise cw d x y = Inr (b, d')"
  shows "(overlaps cw (x, y) = Some None \<and> \<not> b \<and> d' = d) \<or>
         (\<exists>i j dx r. overlaps cw (x, y) = Some (Some (i, j)) \<and> map_of d x = Some dx \<and>
            to_remove d y i j dx = Inr r \<and> b = (r \<noteq> []) \<and>
            d' = AList.update x (remove_words r dx) d)"
proof (cases "overlaps cw (x, y)")
  case None
  with assms show ?thesis by (simp add: revise_def)
next
  case (Some o1)
  show ?thesis
  proof (cases o1)
    case None
    with Some assms show ?thesis by (auto simp: revise_def)
  next
    case (Some ij)
    obtain i j where ij: "ij = (i, j)" by (cases ij)
    from assms \<open>overlaps cw (x, y) = Some o1\<close> Some ij show ?thesis
      by (auto simp: revise_def split: option.splits sum.splits)
  qed
qed

lemma revise_total:
  assumes "revise cw d x y = Inr (b, d')"
  shows "(b \<longrightarrow> domain_total d' < domain_total d) \<and> (\<not> b \<longrightarrow> d' = d)"
  using revise_cases[OF assms]
proof (elim disjE exE conjE)
  fix i j dx r
  assume dx: "map_of d x = Some dx" and r: "to_remove d y i j dx = Inr r"
    and b: "b = (r \<noteq> [])" and d': "d' = AList.update x (remove_words r dx) d"
  show ?thesis
  proof (cases "r = []")
    case True
    with dx d' b show ?thesis by (simp add: update_triv)
  next
    case False
    from to_remove_sub[OF r] False have "length (remove_words r dx) < length dx"
      by (simp add: remove_words_filter length_filter_notin_less)
    with domain_total_update[OF dx, of "remove_words r dx"] d' b False show ?thesis by simp
  qed
qed simp

termination ac3_loop
  by (relation "inv_image (less_than <*lex*> less_than) (\<lambda>(cw, d, q). (domain_total d, length q))")
     (auto dest: revise_total)

text \<open>
  \<^verbatim>\<open>ac3(arcs=None)\<close>: the default queue holds every pair \<^verbatim>\<open>(x, y)\<close> with \<^verbatim>\<open>y\<close> a
  neighbor of \<^verbatim>\<open>x\<close>.
\<close>

definition all_arcs :: "crossword \<Rightarrow> (variable \<times> variable) list" where
  "all_arcs cw = concat (map (\<lambda>x. map (\<lambda>y. (x, y)) (neighbors cw x)) (variables cw))"

definition ac3 :: "crossword \<Rightarrow> domains \<Rightarrow> (variable \<times> variable) list option \<Rightarrow> error + (bool \<times> domains)" where
  "ac3 cw d arcs = ac3_loop cw d (case arcs of None \<Rightarrow> all_arcs cw | Some q \<Rightarrow> q)"

section \<open>Checks on assignments\<close>

definition assignment_complete :: "crossword \<Rightarrow> assignment \<Rightarrow> bool" where
  "assignment_complete cw a = (length [v \<leftarrow> variables cw. v \<notin> set (map fst a)] = 0)"

text \<open>
  The third loop of \<^verbatim>\<open>consistent\<close>, for one assigned variable \<^verbatim>\<open>i\<close> and the
  neighbors of \<^verbatim>\<open>i\<close> still to visit. \<open>Inr False\<close> is the early \<^verbatim>\<open>return False\<close>.
\<close>

fun check_neighbors :: "crossword \<Rightarrow> assignment \<Rightarrow> variable \<Rightarrow> variable list \<Rightarrow> error + bool" where
  "check_neighbors cw a i [] = Inr True"
| "check_neighbors cw a i (j # n) =
     (if j \<in> set (map fst a) then
        (case overlaps cw (i, j) of
           None \<Rightarrow> Inl KeyError
         | Some None \<Rightarrow> Inl TypeError
         | Some (Some (p, q)) \<Rightarrow>
             (case map_of a i of
                None \<Rightarrow> Inl KeyError
              | Some wi \<Rightarrow>
                  (if length wi \<le> p then Inl IndexError
                   else (case map_of a j of
                           None \<Rightarrow> Inl KeyError
                         | Some wj \<Rightarrow>
                             (if length wj \<le> q then Inl IndexError
                              else if wi ! p \<noteq> wj ! q then Inr False
                              else check_neighbors cw a i n)))))
      else check_neighbors cw a i n)"

fun check_overlaps :: "crossword \<Rightarrow> assignment \<Rightarrow> variable list \<Rightarrow> error + bool" where
  "check_overlaps cw a [] = Inr True"
| "check_overlaps cw a (i # keys) =
     (case check_neighbors cw a i (neighbors cw i) of
        Inl e \<Rightarrow> Inl e
      | Inr ok \<Rightarrow> if ok then check_overlaps cw a keys else Inr False)"

definition consistent :: "crossword \<Rightarrow> assignment \<Rightarrow> error + bool" where
  "consistent cw a =
     (if length (map snd a) \<noteq> length (remdups (map snd a)) then Inr False
      else if list_ex (\<lambda>(i, w). length w \<noteq> var_length i) a then Inr False
      else check_overlaps cw a (map fst a))"

section \<open>Heuristics\<close>

text \<open>The loop of the local function \<^verbatim>\<open>_neighbor(temp, v)\<close> over \<^verbatim>\<open>domains[temp]\<close>.\<close>

fun neighbor_count ::
  "crossword \<Rightarrow> variable \<Rightarrow> variable \<Rightarrow> string \<Rightarrow> string list \<Rightarrow> nat \<Rightarrow> error + nat" where
  "neighbor_count cw var temp v [] cnt = Inr cnt"
| "neighbor_count cw var temp v (i # rest) cnt =
     (if i = v then neighbor_count cw var temp v rest (cnt + 1)
      else (case overlaps cw (var, temp) of
              None \<Rightarrow> Inl KeyError
            | Some None \<Rightarrow> neighbor_count cw var temp v rest cnt
            | Some (Some (k, j)) \<Rightarrow>
                (if length v \<le> k \<or> length i \<le> j then Inl IndexError
                 else if v ! k \<noteq> i ! j then neighbor_count cw var temp v rest (cnt + 1)
                 else neighbor_count cw var temp v rest cnt)))"

definition odv_neighbor ::
  "crossword \<Rightarrow> domains \<Rightarrow> assignment \<Rightarrow> variable \<Rightarrow> variable \<Rightarrow> string \<Rightarrow> error + nat" where
  "odv_neighbor cw d a var temp v =
     (if temp \<notin> set (map fst a) then
        (case map_of d temp of
           None \<Rightarrow> Inl KeyError
         | Some dt \<Rightarrow> neighbor_count cw var temp v dt 0)
      else Inr 0)"

text \<open>The loop of the local function \<^verbatim>\<open>_value(val)\<close> over the neighbors of \<^verbatim>\<open>var\<close>.\<close>

fun value_loop ::
  "crossword \<Rightarrow> domains \<Rightarrow> assignment \<Rightarrow> variable list \<Rightarrow> variable \<Rightarrow> string \<Rightarrow>
   variable list \<Rightarrow> nat \<Rightarrow> error + nat" where
  "value_loop cw d a vars var val [] cnt = Inr cnt"
| "value_loop cw d a vars var val (i # rest) cnt =
     (if i \<in> set vars then
        (case odv_neighbor cw d a var i val of
           Inl e \<Rightarrow> Inl e
         | Inr c \<Rightarrow> value_loop cw d a vars var val rest (cnt + c))
      else value_loop cw d a vars var val rest cnt)"

text \<open>
  \<^verbatim>\<open>_value(val)\<close> rebinds \<^verbatim>\<open>self.domains[var]\<close> to the singleton of \<^verbatim>\<open>val\<close>, counts,
  and rebinds it to the copy \<^verbatim>\<open>temp\<close> taken before.
\<close>

definition odv_value ::
  "crossword \<Rightarrow> domains \<Rightarrow> assignment \<Rightarrow> variable list \<Rightarrow> variable \<Rightarrow> string \<Rightarrow>
   error + (nat \<times> domains)" where
  "odv_value cw d a vars var val =
     (case map_of d var of
        None \<Rightarrow> Inl KeyError
      | Some temp \<Rightarrow>
          (let d1 = AList.update var [val] d in
           case value_loop cw d1 a vars var val (neighbors cw var) 0 of
             Inl e \<Rightarrow> Inl e
           | Inr cnt \<Rightarrow> Inr (cnt, AList.update var temp d1)))"

text \<open>The keys that \<^verbatim>\<open>sorted\<close> computes, one call of \<^verbatim>\<open>_value\<close> per value, in order.\<close>

fun value_keys ::
  "crossword \<Rightarrow> assignment \<Rightarrow> variable list \<Rightarrow> variable \<Rightarrow> string list \<Rightarrow> domains \<Rightarrow>
   error + (nat list \<times> domains)" where
  "value_keys cw a vars var [] d = Inr ([], d)"
| "value_keys cw a vars var (val # vals) d =
     (case odv_value cw d a vars var val of
        Inl e \<Rightarrow> Inl e
      | Inr (k, d1) \<Rightarrow>
          (case value_keys cw a vars var vals d1 of
             Inl e \<Rightarrow> Inl e
           | Inr (ks, d2) \<Rightarrow> Inr (k # ks, d2)))"

text \<open>
  \<^verbatim>\<open>order_domain_values\<close> takes a shallow copy \<^verbatim>\<open>temp_domain\<close> of the dict, rebinds
  entries of \<^verbatim>\<open>self.domains\<close> (no set object is changed in place), sorts the values
  of \<^verbatim>\<open>var\<close> by \<^verbatim>\<open>_value\<close>, then sets \<^verbatim>\<open>self.domains = temp_domain\<close> and overwrites
  the sorted list \<^verbatim>\<open>_val\<close> with a copy of \<^verbatim>\<open>self.domains[var]\<close>, which it returns.
\<close>

definition order_domain_values ::
  "crossword \<Rightarrow> domains \<Rightarrow> variable \<Rightarrow> assignment \<Rightarrow> error + (string list \<times> domains)" where
  "order_domain_values cw d var a =
     (case map_of d var of
        None \<Rightarrow> Inl KeyError
      | Some dv \<Rightarrow>
          (if dv = [] then Inr ([], d)
           else
             (let temp_domain = d;
                  d1 = fold (\<lambda>(i, w) ds. AList.update i [w] ds) a d;
                  vars = [v \<leftarrow> variables cw. v \<notin> set (map fst a)]
              in case map_of d1 var of
                   None \<Rightarrow> Inl KeyError
                 | Some dv1 \<Rightarrow>
                     (case value_keys cw a vars var dv1 d1 of
                        Inl e \<Rightarrow> Inl e
                      | Inr (ks, d2) \<Rightarrow>
                          (let val = map snd (sort_key fst (zip ks dv1));
                               d3 = temp_domain
                           in case map_of d3 var of
                                None \<Rightarrow> Inl KeyError
                              | Some val \<Rightarrow> Inr (val, d3))))))"

text \<open>
  The sort keys of \<^verbatim>\<open>select_unassigned_variable\<close>:
  \<^verbatim>\<open>(len(self.domains[var]), -len(self.crossword.neighbors(var)))\<close>.
\<close>

fun select_keys ::
  "crossword \<Rightarrow> domains \<Rightarrow> variable list \<Rightarrow> error + ((nat \<times> int) \<times> variable) list" where
  "select_keys cw d [] = Inr []"
| "select_keys cw d (var # vs) =
     (case map_of d var of
        None \<Rightarrow> Inl KeyError
      | Some dv \<Rightarrow>
          (case select_keys cw d vs of
             Inl e \<Rightarrow> Inl e
           | Inr ks \<Rightarrow> Inr (((length dv, - int (length (neighbors cw var))), var) # ks)))"

definition select_unassigned_variable ::
  "crossword \<Rightarrow> domains \<Rightarrow> assignment \<Rightarrow> error + variable option" where
  "select_unassigned_variable cw d a =
     (let vars = [v \<leftarrow> variables cw. v \<notin> set (map fst a)] in
      case select_keys cw d vars of
        Inl e \<Rightarrow> Inl e
      | Inr ks \<Rightarrow>
          (let sorted_vars_left = map snd (sort_key fst ks) in
           Inr (case sorted_vars_left of [] \<Rightarrow> None | v # rest \<Rightarrow> Some v)))"

section \<open>Backtracking search\<close>

text \<open>
  \<^verbatim>\<open>backtrack\<close> changes the dict \<^verbatim>\<open>assignment\<close> in place and returns either that very
  object or \<^verbatim>\<open>None\<close>. The model returns whether an assignment is returned, the
  assignment as the call leaves it, and the domain store. \<open>backtrack_loop\<close> is the
  \<^verbatim>\<open>for\<close> loop over the values of \<^verbatim>\<open>_var\<close>.
\<close>

function backtrack ::
    "crossword \<Rightarrow> domains \<Rightarrow> assignment \<Rightarrow> error + (bool \<times> assignment \<times> domains)"
  and backtrack_loop ::
    "crossword \<Rightarrow> domains \<Rightarrow> variable \<Rightarrow> string list \<Rightarrow> assignment \<Rightarrow>
     error + (bool \<times> assignment \<times> domains)" where
  "backtrack cw d a =
     (case consistent cw a of
        Inl e \<Rightarrow> Inl e
      | Inr c \<Rightarrow>
          (if \<not> c then Inr (False, a, d)
           else if assignment_complete cw a then Inr (True, a, d)
           else (case select_unassigned_variable cw d a of
                   Inl e \<Rightarrow> Inl e
                 | Inr None \<Rightarrow> Inl KeyError
                 | Inr (Some var) \<Rightarrow>
                     (case order_domain_values cw d var a of
                        Inl e \<Rightarrow> Inl e
                      | Inr (vals, d1) \<Rightarrow> backtrack_loop cw d1 var vals a))))"
| "backtrack_loop cw d var [] a = Inr (False, a, d)"
| "backtrack_loop cw d var (i # rest) a =
     (case backtrack cw d (AList.update var i a) of
        Inl e \<Rightarrow> Inl e
      | Inr (found, a1, d1) \<Rightarrow>
          (if found then Inr (True, a1, d1)
           else backtrack_loop cw d1 var rest (AList.delete var a1)))"
  by pat_completeness auto

text \<open>
  The search terminates: every recursive call of \<^verbatim>\<open>backtrack\<close> assigns a variable of
  the graph that had no entry. The loop passes on the assignment that the recursive
  call leaves, so termination needs what a failed call leaves.
\<close>

definition unassigned :: "crossword \<Rightarrow> variable list \<Rightarrow> nat" where
  "unassigned cw ks = length [v \<leftarrow> variables cw. v \<notin> set ks]"

lemma select_keys_vars: "select_keys cw d vs = Inr ks \<Longrightarrow> map snd ks = vs"
  by (induction vs arbitrary: ks) (auto split: option.splits sum.splits)

lemma select_unassigned_variable_Some:
  assumes "select_unassigned_variable cw d a = Inr (Some var)"
  shows "var \<in> set (variables cw) \<and> var \<notin> set (map fst a)"
proof -
  from assms obtain ks where ks: "select_keys cw d [v \<leftarrow> variables cw. v \<notin> set (map fst a)] = Inr ks"
    and v: "(case map snd (sort_key fst ks) of [] \<Rightarrow> None | v # rest \<Rightarrow> Some v) = Some var"
    by (auto simp: select_unassigned_variable_def Let_def split: sum.splits)
  from v obtain k zs where "sort_key fst ks = (k, var) # zs" by (auto split: list.splits)
  then have "(k, var) \<in> set (sort_key fst ks)" by simp
  then have "(k, var) \<in> set ks" by simp
  then have "var \<in> set (map snd ks)" by force
  with select_keys_vars[OF ks] show ?thesis by auto
qed

lemma unassigned_less:
  "var \<in> set (variables cw) \<Longrightarrow> var \<notin> set ks \<Longrightarrow> unassigned cw (var # ks) < unassigned cw ks"
proof -
  assume a: "var \<in> set (variables cw)" "var \<notin> set ks"
  have "[v \<leftarrow> variables cw. v \<notin> set (var # ks)] = [v \<leftarrow> [v \<leftarrow> variables cw. v \<notin> set ks]. v \<noteq> var]"
    by (auto intro: filter_cong)
  moreover have "var \<in> set [v \<leftarrow> variables cw. v \<notin> set ks]" using a by simp
  ultimately show ?thesis unfolding unassigned_def
    by (metis (mono_tags, lifting) length_filter_less)
qed

lemma unassigned_cong: "set ks = set ks' \<Longrightarrow> unassigned cw ks = unassigned cw ks'"
  by (simp add: unassigned_def)

lemma delete_update_notin: "k \<notin> set (map fst a) \<Longrightarrow> AList.delete k (AList.update k v a) = a"
  by (induction a) auto

lemma backtrack_partial:
  "backtrack_backtrack_loop_dom (Inl (cw, d, a)) \<Longrightarrow>
     backtrack cw d a = Inr (False, a', d') \<longrightarrow> a' = a"
  "backtrack_backtrack_loop_dom (Inr (cw, d, var, vals, a)) \<Longrightarrow>
     backtrack_loop cw d var vals a = Inr (False, a', d') \<longrightarrow> (a' = a \<or> a' = AList.delete var a)"
proof (induction cw d a and cw d var vals a arbitrary: a' d' and a' d' rule: backtrack_backtrack_loop.pinduct)
  case (1 cw d a)
  show ?case
  proof
    assume r: "backtrack cw d a = Inr (False, a', d')"
    show "a' = a"
    proof (cases "consistent cw a")
      case (Inl e) with r 1(1) show ?thesis by (simp add: backtrack.psimps)
    next
      case (Inr c)
      show ?thesis
      proof (cases "\<not> c \<or> assignment_complete cw a")
        case True with r Inr 1(1) show ?thesis by (auto simp: backtrack.psimps split: if_splits)
      next
        case False
        with r Inr 1(1) obtain var vals d1 where s: "select_unassigned_variable cw d a = Inr (Some var)"
          and o: "order_domain_values cw d var a = Inr (vals, d1)"
          and l: "backtrack_loop cw d1 var vals a = Inr (False, a', d')"
          by (auto simp: backtrack.psimps split: sum.splits option.splits)
        from 1(2)[OF Inr _ _ s refl o refl] False l have "a' = a \<or> a' = AList.delete var a" by auto
        moreover from select_unassigned_variable_Some[OF s] have "AList.delete var a = a"
          by (simp add: delete_id)
        ultimately show ?thesis by auto
      qed
    qed
  qed
next
  case (2 cw d var a)
  then show ?case by (simp add: backtrack_loop.psimps)
next
  case (3 cw d var i rest a)
  show ?case
  proof
    assume r: "backtrack_loop cw d var (i # rest) a = Inr (False, a', d')"
    with 3(1) obtain a1 d1 where b: "backtrack cw d (AList.update var i a) = Inr (False, a1, d1)"
      and l: "backtrack_loop cw d1 var rest (AList.delete var a1) = Inr (False, a', d')"
      by (auto simp: backtrack_loop.psimps split: sum.splits if_splits)
    from 3(2) b have a1: "a1 = AList.update var i a" by auto
    from 3(3)[OF b refl refl] l have "a' = AList.delete var a1 \<or> a' = AList.delete var (AList.delete var a1)"
      by auto
    with a1 show "a' = a \<or> a' = AList.delete var a"
      by (auto simp: delete_update_same delete_idem)
  qed
qed

termination backtrack
proof (relation "inv_image (less_than <*lex*> less_than)
     (\<lambda>s. case s of Inl (cw, d, a) \<Rightarrow> (unassigned cw (map fst a), 0)
                   | Inr (cw, d, var, vals, a) \<Rightarrow> (unassigned cw (var # map fst a), Suc (length vals)))", goal_cases)
  case 1 show ?case by (intro wf_inv_image wf_lex_prod wf_less_than)
next
  case (2 cw d a b ba x2 bb x y)
  then show ?case using select_unassigned_variable_Some[of cw d a x2] unassigned_less[of x2 cw "map fst a"]
    by simp
next
  case (3 cw d var i rest a)
  have "unassigned cw (map fst (AList.update var i a)) = unassigned cw (var # map fst a)"
    by (rule unassigned_cong) (auto simp: dom_update)
  then show ?case by simp
next
  case (4 cw d var i rest a b x y xa ya)
  then have "backtrack cw d (AList.update var i a) = Inr (False, xa, ya)" by auto
  with backtrack_partial(1)[OF 4(5)] have "xa = AList.update var i a" by auto
  then have "unassigned cw (var # map fst (AList.delete var xa)) = unassigned cw (var # map fst a)"
    by (intro unassigned_cong) (auto simp: delete_update_same delete_keys)
  then show ?case by simp
qed

section \<open>The entry point\<close>

text \<open>
  \<^verbatim>\<open>solve\<close> runs on the domain store of the creator; \<^verbatim>\<open>main\<close> calls it on a creator
  that \<^verbatim>\<open>__init__\<close> has just built.
\<close>

definition solve :: "crossword \<Rightarrow> domains \<Rightarrow> error + assignment option" where
  "solve cw d =
     (let d1 = enforce_node_consistency d in
      case ac3 cw d1 None of
        Inl e \<Rightarrow> Inl e
      | Inr (ok, d2) \<Rightarrow>
          (case backtrack cw d2 [] of
             Inl e \<Rightarrow> Inl e
           | Inr (found, a, d3) \<Rightarrow> Inr (if found then Some a else None)))"

definition create_and_solve :: "crossword \<Rightarrow> error + assignment option" where
  "create_and_solve cw = solve cw (init_domains cw)"

text \<open>
  The same function with a log of the methods that \<^verbatim>\<open>solve\<close> calls on \<^verbatim>\<open>self\<close>, in
  order, and of what \<^verbatim>\<open>ac3\<close> returned.
\<close>

datatype call = Call_enforce_node_consistency | Call_ac3 bool | Call_backtrack

definition solve_traced :: "crossword \<Rightarrow> domains \<Rightarrow> error + (assignment option \<times> call list)" where
  "solve_traced cw d =
     (let d1 = enforce_node_consistency d;
          log1 = [Call_enforce_node_consistency] in
      case ac3 cw d1 None of
        Inl e \<Rightarrow> Inl e
      | Inr (ok, d2) \<Rightarrow>
          (let log2 = log1 @ [Call_ac3 ok] in
           case backtrack cw d2 [] of
             Inl e \<Rightarrow> Inl e
           | Inr (found, a, d3) \<Rightarrow>
               Inr (if found then Some a else None, log2 @ [Call_backtrack])))"

section \<open>Example crosswords\<close>

definition across2 :: variable where
  "across2 = \<lparr>var_i = 0, var_j = 0, var_direction = ACROSS, var_length = 2\<rparr>"

definition down2 :: variable where
  "down2 = \<lparr>var_i = 0, var_j = 0, var_direction = DOWN, var_length = 2\<rparr>"

definition down2r :: variable where
  "down2r = \<lparr>var_i = 0, var_j = 1, var_direction = DOWN, var_length = 2\<rparr>"

text \<open>Two slots of length 2 that share their first cell.\<close>

definition corner_overlaps :: "variable \<times> variable \<Rightarrow> (nat \<times> nat) option option" where
  "corner_overlaps p =
     (if p = (across2, down2) \<or> p = (down2, across2) then Some (Some (0, 0)) else None)"

definition corner :: "string list \<Rightarrow> crossword" where
  "corner ws = \<lparr>variables = [across2, down2], words = ws, overlaps = corner_overlaps\<rparr>"

text \<open>The second letter of the across slot is the first letter of the down slot.\<close>

definition hook_overlaps :: "variable \<times> variable \<Rightarrow> (nat \<times> nat) option option" where
  "hook_overlaps p =
     (if p = (across2, down2r) then Some (Some (1, 0))
      else if p = (down2r, across2) then Some (Some (0, 1))
      else None)"

definition hook :: "string list \<Rightarrow> crossword" where
  "hook ws = \<lparr>variables = [across2, down2r], words = ws, overlaps = hook_overlaps\<rparr>"

section \<open>What the search leaves behind\<close>

lemma order_domain_values_result:
  assumes "order_domain_values cw d var a = Inr (vals, d')"
  shows "d' = d \<and> map_of d var = Some vals"
  using assms
  by (auto simp: order_domain_values_def Let_def split: option.splits sum.splits if_splits)

lemma backtrack_failure_restores:
  "backtrack cw d a = Inr (False, a', d') \<Longrightarrow> a' = a \<and> d' = d"
  "backtrack_loop cw d var vals a = Inr (False, a', d') \<Longrightarrow>
     (a' = a \<or> a' = AList.delete var a) \<and> d' = d"
proof (induction cw d a and cw d var vals a arbitrary: a' d' and a' d'
       rule: backtrack_backtrack_loop.induct)
  case (1 cw d a)
  note r = \<open>backtrack cw d a = Inr (False, a', d')\<close>
  show ?case
  proof (cases "consistent cw a")
    case (Inl e) with r show ?thesis by simp
  next
    case (Inr c)
    show ?thesis
    proof (cases "\<not> c \<or> assignment_complete cw a")
      case True with r Inr show ?thesis by (auto split: if_splits)
    next
      case False
      with r Inr obtain var vals d1 where s: "select_unassigned_variable cw d a = Inr (Some var)"
        and o: "order_domain_values cw d var a = Inr (vals, d1)"
        and l: "backtrack_loop cw d1 var vals a = Inr (False, a', d')"
        by (auto split: sum.splits option.splits)
      from "1.IH"[OF Inr _ _ s refl o refl l] False
      have "(a' = a \<or> a' = AList.delete var a) \<and> d' = d1" by auto
      moreover from select_unassigned_variable_Some[OF s] have "AList.delete var a = a"
        by (simp add: delete_id)
      moreover from order_domain_values_result[OF o] have "d1 = d" by simp
      ultimately show ?thesis by auto
    qed
  qed
next
  case (2 cw d var a)
  then show ?case by simp
next
  case (3 cw d var i rest a)
  note r = \<open>backtrack_loop cw d var (i # rest) a = Inr (False, a', d')\<close>
  then obtain a1 d1 where b: "backtrack cw d (AList.update var i a) = Inr (False, a1, d1)"
    and l: "backtrack_loop cw d1 var rest (AList.delete var a1) = Inr (False, a', d')"
    by (auto split: sum.splits if_splits)
  from "3.IH"(1)[OF b] have a1: "a1 = AList.update var i a" "d1 = d" by auto
  from "3.IH"(2)[OF b refl refl _ l]
  have "(a' = AList.delete var a1 \<or> a' = AList.delete var (AList.delete var a1)) \<and> d' = d1"
    by auto
  with a1 show ?case
    by (auto simp: delete_update_same delete_idem)
qed

text \<open>A word list and the domain store of the corner crossword for it.\<close>

definition fruit :: "string list" where
  "fruit = [''TO'', ''AT'', ''AS'']"

definition fruit_domains :: domains where
  "fruit_domains = [(across2, fruit), (down2, fruit)]"

text \<open>
  Claim C7. When \<^verbatim>\<open>order_domain_values(var, assignment)\<close> returns, the domain store
  is what it was before the call: the domain of every variable is unchanged.
\<close>
theorem order_domain_values_keeps_domains:
  "order_domain_values cw d var a = Inr (vals, d') \<Longrightarrow> d' = d"
  using order_domain_values_result[of cw d var a vals d'] by simp

theorem order_domain_values_keeps_domains_witness:
  "order_domain_values (corner fruit) fruit_domains across2 [(down2, ''AT'')]
     = Inr (fruit, fruit_domains) \<and> fruit_domains = fruit_domains"
proof -
  have h: "order_domain_values (corner fruit) fruit_domains across2 [(down2, ''AT'')]
     = Inr (fruit, fruit_domains)" by code_simp
  from order_domain_values_keeps_domains[OF h] h show ?thesis by simp
qed

text \<open>
  Claim C6. The collection that \<^verbatim>\<open>order_domain_values(var, assignment)\<close> returns
  holds exactly the words of the current domain of \<^verbatim>\<open>var\<close>: the same words, each as
  often as in the domain.
\<close>
theorem order_domain_values_permutation:
  "order_domain_values cw d var a = Inr (vals, d') \<Longrightarrow> map_of d var = Some dom_var \<Longrightarrow>
     set vals = set dom_var \<and> mset vals = mset dom_var"
  using order_domain_values_result[of cw d var a vals d'] by simp

theorem order_domain_values_permutation_witness:
  "order_domain_values (corner fruit) fruit_domains down2 [] = Inr (fruit, fruit_domains) \<and>
   map_of fruit_domains down2 = Some fruit \<and> set fruit = set fruit \<and> mset fruit = mset fruit"
proof -
  have h: "order_domain_values (corner fruit) fruit_domains down2 [] = Inr (fruit, fruit_domains)"
    by code_simp
  have k: "map_of fruit_domains down2 = Some fruit" by code_simp
  from order_domain_values_permutation[OF h k] h k show ?thesis by simp
qed

text \<open>
  Claim C8. When \<^verbatim>\<open>backtrack(a)\<close> returns \<^verbatim>\<open>None\<close>, the assignment holds the entries
  it held before the call, in the same order: every tentative entry has been removed.
\<close>
theorem backtrack_failure_atomic:
  "backtrack cw d a = Inr (False, a', d') \<Longrightarrow> a' = a"
  using backtrack_failure_restores(1)[of cw d a a' d'] by simp

theorem backtrack_failure_atomic_witness:
  "backtrack (corner [''AB'', ''CD'']) [(across2, [''AB'', ''CD'']), (down2, [''AB'', ''CD''])]
       [(down2, ''AB'')]
     = Inr (False, [(down2, ''AB'')], [(across2, [''AB'', ''CD'']), (down2, [''AB'', ''CD''])]) \<and>
   [(down2, ''AB'')] = [(down2, ''AB'')]"
proof -
  have h: "backtrack (corner [''AB'', ''CD'']) [(across2, [''AB'', ''CD'']), (down2, [''AB'', ''CD''])]
       [(down2, ''AB'')]
     = Inr (False, [(down2, ''AB'')], [(across2, [''AB'', ''CD'']), (down2, [''AB'', ''CD''])])"
    by code_simp
  from backtrack_failure_atomic[OF h] h show ?thesis by simp
qed

section \<open>The consistency check\<close>

text \<open>
  The specification's words for a consistent assignment: no two entries share a word,
  the word of every entry has the length of its variable, and two assigned neighboring
  variables agree on the letters at their overlap indices. A complete assignment has an
  entry for every variable of the graph.
\<close>

definition consistent_spec :: "crossword \<Rightarrow> assignment \<Rightarrow> bool" where
  "consistent_spec cw a =
     (distinct (map snd a) \<and>
      (\<forall>(v, w) \<in> set a. length w = var_length v) \<and>
      (\<forall>(x, wx) \<in> set a. \<forall>(y, wy) \<in> set a. y \<in> set (neighbors cw x) \<longrightarrow>
         (case overlaps cw (x, y) of
            Some (Some (i, j)) \<Rightarrow> i < length wx \<and> j < length wy \<and> wx ! i = wy ! j
          | _ \<Rightarrow> True)))"

definition complete_spec :: "crossword \<Rightarrow> assignment \<Rightarrow> bool" where
  "complete_spec cw a = (\<forall>v \<in> set (variables cw). v \<in> fst ` set a)"

text \<open>
  The graph invariant on indices: an overlap of a variable of the graph with one of its
  neighbors lies within the lengths of the two variables.
\<close>

definition overlaps_in_range :: "crossword \<Rightarrow> bool" where
  "overlaps_in_range cw =
     (\<forall>x \<in> set (variables cw). \<forall>y \<in> set (neighbors cw x).
        (case overlaps cw (x, y) of
           Some (Some (i, j)) \<Rightarrow> i < var_length x \<and> j < var_length y
         | _ \<Rightarrow> True))"

lemma overlaps_in_rangeD:
  "overlaps_in_range cw \<Longrightarrow> x \<in> set (variables cw) \<Longrightarrow> y \<in> set (neighbors cw x) \<Longrightarrow>
     overlaps cw (x, y) = Some (Some (i, j)) \<Longrightarrow> i < var_length x \<and> j < var_length y"
  unfolding overlaps_in_range_def by fastforce

lemma consistent_specI:
  assumes "distinct (map snd a)" "\<And>v w. (v, w) \<in> set a \<Longrightarrow> length w = var_length v"
    "\<And>x wx y wy i j. (x, wx) \<in> set a \<Longrightarrow> (y, wy) \<in> set a \<Longrightarrow> y \<in> set (neighbors cw x) \<Longrightarrow>
       overlaps cw (x, y) = Some (Some (i, j)) \<Longrightarrow>
       i < length wx \<and> j < length wy \<and> wx ! i = wy ! j"
  shows "consistent_spec cw a"
  unfolding consistent_spec_def using assms
  by (auto split: option.splits)

lemma consistent_specD:
  assumes "consistent_spec cw a"
  shows "distinct (map snd a)"
    and "(v, w) \<in> set a \<Longrightarrow> length w = var_length v"
    and "(x, wx) \<in> set a \<Longrightarrow> (y, wy) \<in> set a \<Longrightarrow> y \<in> set (neighbors cw x) \<Longrightarrow>
       overlaps cw (x, y) = Some (Some (i, j)) \<Longrightarrow>
       i < length wx \<and> j < length wy \<and> wx ! i = wy ! j"
  using assms unfolding consistent_spec_def
  by (fastforce split: option.splits)+

lemma neighbors_overlap:
  "y \<in> set (neighbors cw x) \<Longrightarrow>
     y \<in> set (variables cw) \<and> y \<noteq> x \<and> (\<exists>i j. overlaps cw (x, y) = Some (Some (i, j)))"
  by (auto simp: neighbors_def has_overlap_def split: option.splits)

lemma assignment_complete_spec: "assignment_complete cw a = complete_spec cw a"
  by (auto simp: assignment_complete_def complete_spec_def filter_empty_conv)

lemma check_neighbors_TrueD:
  "check_neighbors cw a i n = Inr True \<Longrightarrow> j \<in> set n \<Longrightarrow> j \<in> set (map fst a) \<Longrightarrow>
     \<exists>p q wi wj. overlaps cw (i, j) = Some (Some (p, q)) \<and> map_of a i = Some wi \<and>
        map_of a j = Some wj \<and> p < length wi \<and> q < length wj \<and> wi ! p = wj ! q"
proof (induction n)
  case Nil
  then show ?case by simp
next
  case (Cons k n)
  show ?case
  proof (cases "k \<in> set (map fst a)")
    case False
    with Cons show ?thesis by auto
  next
    case True
    with Cons.prems(1) obtain p q wi wk where
      *: "overlaps cw (i, k) = Some (Some (p, q))" "map_of a i = Some wi" "map_of a k = Some wk"
         "p < length wi" "q < length wk" "wi ! p = wk ! q" "check_neighbors cw a i n = Inr True"
      by (auto split: option.splits if_splits)
    show ?thesis
    proof (cases "j = k")
      case True
      with * show ?thesis by blast
    next
      case False
      with Cons.prems have "j \<in> set n" by simp
      from Cons.IH[OF *(7) this Cons.prems(3)] show ?thesis .
    qed
  qed
qed

lemma check_overlaps_TrueD:
  "check_overlaps cw a ks = Inr True \<Longrightarrow> i \<in> set ks \<Longrightarrow>
     check_neighbors cw a i (neighbors cw i) = Inr True"
proof (induction ks)
  case Nil
  then show ?case by simp
next
  case (Cons k ks)
  show ?case
  proof (cases "check_neighbors cw a k (neighbors cw k)")
    case (Inl e)
    with Cons.prems(1) show ?thesis by simp
  next
    case (Inr ok)
    with Cons.prems(1) have ok: "ok" and rest: "check_overlaps cw a ks = Inr True"
      by (simp_all split: if_splits)
    show ?thesis
    proof (cases "i = k")
      case True
      with Inr ok show ?thesis by simp
    next
      case False
      with Cons.prems(2) have "i \<in> set ks" by simp
      from Cons.IH[OF rest this] show ?thesis .
    qed
  qed
qed

lemma consistent_TrueD:
  assumes "consistent cw a = Inr True"
  shows "distinct (map snd a)" "\<forall>(v, w) \<in> set a. length w = var_length v"
    "check_overlaps cw a (map fst a) = Inr True"
proof -
  from assms have *: "length (remdups (map snd a)) = length (map snd a)"
    "\<not> list_ex (\<lambda>(i, w). length w \<noteq> var_length i) a"
    "check_overlaps cw a (map fst a) = Inr True"
    by (simp_all add: consistent_def split: if_splits)
  from *(1) have "remdups (map snd a) = map snd a" by (simp only: length_remdups_eq)
  then show "distinct (map snd a)" by (simp only: remdups_id_iff_distinct)
  from *(2) show "\<forall>(v, w) \<in> set a. length w = var_length v"
    by (auto simp: list_ex_iff)
  from *(3) show "check_overlaps cw a (map fst a) = Inr True" .
qed

lemma consistent_True_spec:
  assumes c: "consistent cw a = Inr True" and d: "distinct (map fst a)"
  shows "consistent_spec cw a"
proof -
  have "i < length wx \<and> j < length wy \<and> wx ! i = wy ! j"
    if x: "(x, wx) \<in> set a" and y: "(y, wy) \<in> set a" and n: "y \<in> set (neighbors cw x)"
      and o: "overlaps cw (x, y) = Some (Some (i, j))" for x wx y wy i j
  proof -
    from x have "x \<in> set (map fst a)" by force
    from check_overlaps_TrueD[OF consistent_TrueD(3)[OF c] this]
    have "check_neighbors cw a x (neighbors cw x) = Inr True" .
    moreover from y have "y \<in> set (map fst a)" by force
    ultimately obtain p q wi wj where
      *: "overlaps cw (x, y) = Some (Some (p, q))" "map_of a x = Some wi" "map_of a y = Some wj"
         "p < length wi" "q < length wj" "wi ! p = wj ! q"
      using check_neighbors_TrueD[OF _ n] by blast
    from d x y have "map_of a x = Some wx" "map_of a y = Some wy" by simp_all
    with * o show ?thesis by simp
  qed
  with consistent_TrueD(1,2)[OF c] show ?thesis
    by (intro consistent_specI) auto
qed

lemma check_neighbors_no_error:
  assumes len: "\<forall>(v, w) \<in> set a. length w = var_length v"
    and rng: "\<forall>j \<in> set n. \<forall>p q. overlaps cw (i, j) = Some (Some (p, q)) \<longrightarrow>
                p < var_length i \<and> q < var_length j"
    and nb: "set n \<subseteq> set (neighbors cw i)"
    and i: "i \<in> set (map fst a)"
  shows "check_neighbors cw a i n \<noteq> Inl e"
  using rng nb
proof (induction n)
  case Nil
  then show ?case by simp
next
  case (Cons j n)
  have IH: "check_neighbors cw a i n \<noteq> Inl e"
  proof (rule Cons.IH)
    from Cons.prems(1) show "\<forall>j \<in> set n. \<forall>p q. overlaps cw (i, j) = Some (Some (p, q)) \<longrightarrow>
                p < var_length i \<and> q < var_length j" by simp
    from Cons.prems(2) show "set n \<subseteq> set (neighbors cw i)" by simp
  qed
  show ?case
  proof (cases "j \<in> set (map fst a)")
    case False
    with IH show ?thesis by simp
  next
    case True
    from Cons.prems(2) have "j \<in> set (neighbors cw i)" by simp
    from neighbors_overlap[OF this]
    obtain p q where o: "overlaps cw (i, j) = Some (Some (p, q))" by blast
    from Cons.prems(1) o have pq: "p < var_length i" "q < var_length j" by simp_all
    from i obtain wi where wi: "map_of a i = Some wi"
      by (cases "map_of a i") (simp_all add: map_of_eq_None_iff)
    from True obtain wj where wj: "map_of a j = Some wj"
      by (cases "map_of a j") (simp_all add: map_of_eq_None_iff)
    from len map_of_SomeD[OF wi] map_of_SomeD[OF wj]
    have "length wi = var_length i" "length wj = var_length j" by auto
    with True o pq wi wj IH show ?thesis by simp
  qed
qed

lemma check_overlaps_no_error:
  assumes "\<forall>i \<in> set ks. \<forall>e. check_neighbors cw a i (neighbors cw i) \<noteq> Inl e"
  shows "check_overlaps cw a ks \<noteq> Inl e"
  using assms by (induction ks) (auto split: sum.splits)

lemma consistent_no_error:
  assumes rng: "overlaps_in_range cw" and keys: "fst ` set a \<subseteq> set (variables cw)"
  shows "consistent cw a \<noteq> Inl e"
proof (cases "length (map snd a) \<noteq> length (remdups (map snd a)) \<or>
              list_ex (\<lambda>(i, w). length w \<noteq> var_length i) a")
  case True
  then show ?thesis by (auto simp: consistent_def)
next
  case False
  then have len: "\<forall>(v, w) \<in> set a. length w = var_length v" by (auto simp: list_ex_iff)
  have "check_neighbors cw a i (neighbors cw i) \<noteq> Inl e'" if "i \<in> set (map fst a)" for i e'
  proof (rule check_neighbors_no_error[OF len _ _ that])
    from that keys have "i \<in> set (variables cw)" by auto
    with rng show "\<forall>j \<in> set (neighbors cw i). \<forall>p q. overlaps cw (i, j) = Some (Some (p, q)) \<longrightarrow>
                p < var_length i \<and> q < var_length j"
      using overlaps_in_rangeD by blast
  qed simp
  then have "check_overlaps cw a (map fst a) \<noteq> Inl e"
    by (intro check_overlaps_no_error) blast
  with False show ?thesis
    by (simp add: consistent_def)
qed

lemma consistent_length_mismatch:
  assumes "list_ex (\<lambda>(i, w). length w \<noteq> var_length i) a"
  shows "consistent cw a = Inr False"
  using assms by (simp add: consistent_def)


text \<open>
  Claim C10. Under the graph invariant on overlap indices, \<^verbatim>\<open>consistent\<close> never
  indexes a word out of range when it compares the letters of assigned neighbors: an
  entry whose word has not the length of its variable makes it return \<^verbatim>\<open>False\<close>
  before any letter is read.
\<close>

theorem consistent_index_safe:
  assumes "overlaps_in_range cw" and "fst ` set a \<subseteq> set (variables cw)"
  shows "consistent cw a \<noteq> Inl IndexError \<and>
         (list_ex (\<lambda>(v, w). length w \<noteq> var_length v) a \<longrightarrow> consistent cw a = Inr False)"
  using consistent_no_error[OF assms] consistent_length_mismatch by blast

theorem consistent_index_safe_witness:
  "overlaps_in_range (corner fruit) \<and>
   fst ` set [(across2, ''TOO''), (down2, ''AT'')] \<subseteq> set (variables (corner fruit)) \<and>
   list_ex (\<lambda>(v, w). length w \<noteq> var_length v) [(across2, ''TOO''), (down2, ''AT'')] \<and>
   consistent (corner fruit) [(across2, ''TOO''), (down2, ''AT'')] = Inr False"
proof -
  have r: "overlaps_in_range (corner fruit)" by code_simp
  have k: "fst ` set [(across2, ''TOO''), (down2, ''AT'')] \<subseteq> set (variables (corner fruit))"
    by code_simp
  have m: "list_ex (\<lambda>(v, w). length w \<noteq> var_length v) [(across2, ''TOO''), (down2, ''AT'')]"
    by code_simp
  from consistent_index_safe[OF r k] r k m show ?thesis by blast
qed

section \<open>Soundness of the search\<close>

lemma backtrack_success:
  "backtrack cw d a = Inr (True, r, d') \<Longrightarrow> distinct (map fst a) \<Longrightarrow>
     consistent cw r = Inr True \<and> assignment_complete cw r \<and> distinct (map fst r)"
  "backtrack_loop cw d var vals a = Inr (True, r, d') \<Longrightarrow> distinct (map fst a) \<Longrightarrow>
     consistent cw r = Inr True \<and> assignment_complete cw r \<and> distinct (map fst r)"
proof (induction cw d a and cw d var vals a arbitrary: r d' and r d'
       rule: backtrack_backtrack_loop.induct)
  case (1 cw d a)
  note res = \<open>backtrack cw d a = Inr (True, r, d')\<close>
  show ?case
  proof (cases "consistent cw a")
    case (Inl e)
    with res show ?thesis by simp
  next
    case (Inr c)
    show ?thesis
    proof (cases c)
      case False
      with res Inr show ?thesis by simp
    next
      case True
      note c = this
      show ?thesis
      proof (cases "assignment_complete cw a")
        case True
        with res Inr c have "r = a" by simp
        with Inr c True "1.prems"(2) show ?thesis by simp
      next
        case False
        with res Inr c obtain var vals d1 where
          s: "select_unassigned_variable cw d a = Inr (Some var)"
          and o: "order_domain_values cw d var a = Inr (vals, d1)"
          and l: "backtrack_loop cw d1 var vals a = Inr (True, r, d')"
          by (auto split: sum.splits option.splits)
        from Inr c have nc: "\<not> \<not> c" by simp
        from "1.IH"[OF Inr nc False s refl o refl l "1.prems"(2)] show ?thesis .
      qed
    qed
  qed
next
  case (2 cw d var a)
  then show ?case by simp
next
  case (3 cw d var i rest a)
  note res = \<open>backtrack_loop cw d var (i # rest) a = Inr (True, r, d')\<close>
  have du: "distinct (map fst (AList.update var i a))"
    using "3.prems"(2) by (rule distinct_update)
  show ?case
  proof (cases "backtrack cw d (AList.update var i a)")
    case (Inl e)
    with res show ?thesis by simp
  next
    case (Inr t)
    obtain found a1 d1 where t: "t = (found, a1, d1)" by (cases t)
    show ?thesis
    proof (cases found)
      case True
      with res Inr t have "backtrack cw d (AList.update var i a) = Inr (True, r, d')" by simp
      from "3.IH"(1)[OF this du] show ?thesis .
    next
      case False
      with res Inr t have l: "backtrack_loop cw d1 var rest (AList.delete var a1) = Inr (True, r, d')"
        by simp
      from Inr t False have b: "backtrack cw d (AList.update var i a) = Inr (False, a1, d1)" by simp
      from backtrack_failure_restores(1)[OF b] have "a1 = AList.update var i a" by simp
      with du have "distinct (map fst (AList.delete var a1))" by (simp add: distinct_delete)
      from "3.IH"(2)[OF Inr[unfolded t] refl refl False l this] show ?thesis .
    qed
  qed
qed

lemma solve_Some:
  assumes "solve cw d = Inr (Some r)"
  shows "\<exists>d2 d3. backtrack cw d2 [] = Inr (True, r, d3)"
proof (cases "ac3 cw (enforce_node_consistency d) None")
  case (Inl e)
  with assms show ?thesis by (simp add: solve_def)
next
  case (Inr t)
  obtain ok d2 where t: "t = (ok, d2)" by (cases t)
  show ?thesis
  proof (cases "backtrack cw d2 []")
    case (Inl e)
    with assms Inr t show ?thesis by (simp add: solve_def del: backtrack.simps)
  next
    case (Inr u)
    obtain found a d3 where u: "u = (found, a, d3)" by (cases u)
    from assms \<open>ac3 cw (enforce_node_consistency d) None = Inr t\<close> t Inr u
    have "found \<and> a = r"
      by (simp add: solve_def del: backtrack.simps split: if_splits)
    with Inr u have "backtrack cw d2 [] = Inr (True, r, d3)" by (simp del: backtrack.simps)
    then show ?thesis by blast
  qed
qed

text \<open>
  Claim C1. An assignment that \<^verbatim>\<open>solve()\<close> returns is complete (every variable of the
  graph has an entry) and consistent (the words are pairwise distinct, each word has the
  length of its variable, and assigned neighbors agree at their overlap indices).
\<close>

theorem solve_sound:
  assumes "solve cw d = Inr (Some r)"
  shows "complete_spec cw r \<and> consistent_spec cw r"
proof -
  from solve_Some[OF assms] obtain d2 d3 where "backtrack cw d2 [] = Inr (True, r, d3)" by blast
  from backtrack_success(1)[OF this]
  have "consistent cw r = Inr True" "assignment_complete cw r" "distinct (map fst r)" by simp_all
  then show ?thesis
    by (simp add: consistent_True_spec assignment_complete_spec)
qed

theorem solve_sound_witness:
  "solve (corner fruit) (init_domains (corner fruit)) = Inr (Some [(across2, ''AT''), (down2, ''AS'')]) \<and>
   complete_spec (corner fruit) [(across2, ''AT''), (down2, ''AS'')] \<and>
   consistent_spec (corner fruit) [(across2, ''AT''), (down2, ''AS'')]"
proof -
  have h: "solve (corner fruit) (init_domains (corner fruit))
             = Inr (Some [(across2, ''AT''), (down2, ''AS'')])"
    by code_simp
  from solve_sound[OF h] h show ?thesis by simp
qed

section \<open>Propagation only removes words\<close>

text \<open>
  \<open>domains_subset d' d\<close>: the store \<open>d'\<close> has the keys of \<open>d\<close>, and the domain of every
  variable in \<open>d'\<close> is a subset of its domain in \<open>d\<close>.
\<close>

definition domains_subset :: "domains \<Rightarrow> domains \<Rightarrow> bool" where
  "domains_subset d' d =
     (map fst d' = map fst d \<and>
      (\<forall>v \<in> set (map fst d).
         case map_of d' v of
           None \<Rightarrow> False
         | Some s' \<Rightarrow> (case map_of d v of None \<Rightarrow> False | Some s \<Rightarrow> set s' \<subseteq> set s)))"

lemma domains_subsetI:
  assumes "map fst d' = map fst d"
    and "\<And>v s. map_of d v = Some s \<Longrightarrow> \<exists>s'. map_of d' v = Some s' \<and> set s' \<subseteq> set s"
  shows "domains_subset d' d"
  unfolding domains_subset_def
proof (intro conjI ballI)
  fix v assume "v \<in> set (map fst d)"
  then obtain s where s: "map_of d v = Some s"
    by (cases "map_of d v") (simp_all add: map_of_eq_None_iff)
  from assms(2)[OF s] s
  show "case map_of d' v of None \<Rightarrow> False
        | Some s' \<Rightarrow> (case map_of d v of None \<Rightarrow> False | Some s \<Rightarrow> set s' \<subseteq> set s)"
    by auto
qed (rule assms(1))

lemma domains_subsetD:
  assumes "domains_subset d' d"
  shows "map fst d' = map fst d"
    and "map_of d v = Some s \<Longrightarrow> \<exists>s'. map_of d' v = Some s' \<and> set s' \<subseteq> set s"
proof -
  from assms show "map fst d' = map fst d" by (simp add: domains_subset_def)
  assume s: "map_of d v = Some s"
  then have "v \<in> set (map fst d)" by (metis map_of_eq_None_iff option.distinct(1) set_map)
  with assms have "case map_of d' v of None \<Rightarrow> False
        | Some s' \<Rightarrow> (case map_of d v of None \<Rightarrow> False | Some s \<Rightarrow> set s' \<subseteq> set s)"
    unfolding domains_subset_def by blast
  with s show "\<exists>s'. map_of d' v = Some s' \<and> set s' \<subseteq> set s"
    by (cases "map_of d' v") simp_all
qed

lemma domains_subset_refl: "domains_subset d d"
  by (rule domains_subsetI) simp_all

lemma domains_subset_trans:
  assumes "domains_subset d2 d1" "domains_subset d1 d"
  shows "domains_subset d2 d"
proof (rule domains_subsetI)
  from domains_subsetD(1)[OF assms(1)] domains_subsetD(1)[OF assms(2)]
  show "map fst d2 = map fst d" by simp
next
  fix v s assume "map_of d v = Some s"
  from domains_subsetD(2)[OF assms(2) this] obtain s1 where
    s1: "map_of d1 v = Some s1" "set s1 \<subseteq> set s" by blast
  from domains_subsetD(2)[OF assms(1) s1(1)] s1(2)
  show "\<exists>s'. map_of d2 v = Some s' \<and> set s' \<subseteq> set s" by blast
qed

lemma remove_mismatched:
  "remove_words [w \<leftarrow> s. length w \<noteq> n] s = [w \<leftarrow> s. length w = n]"
  by (auto simp: remove_words_filter intro: filter_cong)

lemma map_of_enforce_node_consistency:
  "map_of (enforce_node_consistency d) v =
     map_option (\<lambda>s. [w \<leftarrow> s. length w = var_length v]) (map_of d v)"
  by (induction d) (auto simp: enforce_node_consistency_def remove_mismatched)

lemma keys_enforce_node_consistency:
  "map fst (enforce_node_consistency d) = map fst d"
  by (induction d) (auto simp: enforce_node_consistency_def)

lemma enforce_node_consistency_subset: "domains_subset (enforce_node_consistency d) d"
  by (rule domains_subsetI)
     (auto simp: keys_enforce_node_consistency map_of_enforce_node_consistency)

lemma update_existing_keys:
  "map_of d x = Some dx \<Longrightarrow> map fst (AList.update x s d) = map fst d"
proof -
  assume "map_of d x = Some dx"
  then have "x \<in> set (map fst d)" by (metis map_of_eq_None_iff option.distinct(1) set_map)
  then show ?thesis by (simp add: update_keys)
qed

lemma update_subset:
  assumes "map_of d x = Some dx" "set s \<subseteq> set dx"
  shows "domains_subset (AList.update x s d) d"
proof (rule domains_subsetI)
  show "map fst (AList.update x s d) = map fst d" by (rule update_existing_keys[OF assms(1)])
next
  fix v t assume "map_of d v = Some t"
  with assms show "\<exists>s'. map_of (AList.update x s d) v = Some s' \<and> set s' \<subseteq> set t"
    by (cases "v = x") (simp_all add: update_conv')
qed

lemma revise_subset:
  assumes "revise cw d x y = Inr (b, d')"
  shows "domains_subset d' d"
  using revise_cases[OF assms]
proof (elim disjE exE conjE)
  fix i j dx r
  assume "map_of d x = Some dx" "d' = AList.update x (remove_words r dx) d"
  then show ?thesis by (simp add: update_subset remove_words_filter)
qed (simp add: domains_subset_refl)

lemma ac3_loop_subset:
  "ac3_loop cw d queue = Inr (b, d') \<Longrightarrow> domains_subset d' d"
proof (induction cw d queue rule: ac3_loop.induct)
  case (1 cw d)
  then show ?case by (simp add: domains_subset_refl)
next
  case (2 cw d x y queue)
  note res = \<open>ac3_loop cw d ((x, y) # queue) = Inr (b, d')\<close>
  show ?case
  proof (cases "revise cw d x y")
    case (Inl e)
    with res show ?thesis by simp
  next
    case (Inr t)
    obtain revised d1 where t: "t = (revised, d1)" by (cases t)
    from revise_subset[OF Inr[unfolded t]] have s1: "domains_subset d1 d" .
    show ?thesis
    proof (cases revised)
      case False
      with res Inr t have "ac3_loop cw d1 queue = Inr (b, d')" by simp
      from "2.IH"(2)[OF Inr[unfolded t] refl False this] s1 show ?thesis
        by (rule domains_subset_trans)
    next
      case True
      show ?thesis
      proof (cases "map_of d1 x")
        case None
        with res Inr t True show ?thesis by simp
      next
        case (Some dx)
        show ?thesis
        proof (cases "length dx = 0")
          case z: True
          with res Inr t True Some have "d' = d1" by simp
          with s1 show ?thesis by simp
        next
          case nz: False
          with res Inr t True Some
          have "ac3_loop cw d1 (queue @ map (\<lambda>neighbor. (neighbor, x)) (removeAll y (neighbors cw x)))
                  = Inr (b, d')" by simp
          from "2.IH"(1)[OF Inr[unfolded t] refl True Some nz this] s1 show ?thesis
            by (rule domains_subset_trans)
        qed
      qed
    qed
  qed
qed

text \<open>
  Claim C9. The propagation operations \<^verbatim>\<open>enforce_node_consistency()\<close>,
  \<^verbatim>\<open>revise(x, y)\<close> and \<^verbatim>\<open>ac3(arcs)\<close> only remove words: when they return, the domain of
  every variable is a subset of its domain before the call.
\<close>

theorem propagation_shrinks:
  "domains_subset (enforce_node_consistency d) d \<and>
   (revise cw d x y = Inr (b, d1) \<longrightarrow> domains_subset d1 d) \<and>
   (ac3 cw d arcs = Inr (b', d2) \<longrightarrow> domains_subset d2 d)"
  by (auto simp: enforce_node_consistency_subset ac3_def intro: revise_subset ac3_loop_subset)


text \<open>The hook crossword with three words, after node consistency.\<close>

definition hook_words :: "string list" where
  "hook_words = [''AB'', ''CD'', ''BE'']"

definition hook_domains :: domains where
  "hook_domains = [(across2, hook_words), (down2r, hook_words)]"

theorem propagation_shrinks_witness:
  "revise (hook hook_words) hook_domains across2 down2r
     = Inr (True, [(across2, [''AB'']), (down2r, hook_words)]) \<and>
   ac3 (hook hook_words) hook_domains None
     = Inr (True, [(across2, [''AB'']), (down2r, [''BE''])]) \<and>
   domains_subset (enforce_node_consistency hook_domains) hook_domains \<and>
   domains_subset [(across2, [''AB'']), (down2r, hook_words)] hook_domains \<and>
   domains_subset [(across2, [''AB'']), (down2r, [''BE''])] hook_domains"
proof -
  have r: "revise (hook hook_words) hook_domains across2 down2r
     = Inr (True, [(across2, [''AB'']), (down2r, hook_words)])"
    by code_simp
  have a: "ac3 (hook hook_words) hook_domains None
     = Inr (True, [(across2, [''AB'']), (down2r, [''BE''])])"
    by code_simp
  from propagation_shrinks[of hook_domains "hook hook_words" across2 down2r True
      "[(across2, [''AB'']), (down2r, hook_words)]" None True
      "[(across2, [''AB'']), (down2r, [''BE''])]"] r a
  show ?thesis by blast
qed

section \<open>The variable selector\<close>

lemma map_of_keyI: "v \<in> fst ` set d \<Longrightarrow> \<exists>s. map_of d v = Some s"
  by (cases "map_of d v") (simp_all add: map_of_eq_None_iff)

lemma select_keys_ok:
  "\<forall>v \<in> set vs. v \<in> fst ` set d \<Longrightarrow> \<exists>ks. select_keys cw d vs = Inr ks"
proof (induction vs)
  case Nil
  then show ?case by simp
next
  case (Cons v vs)
  then obtain ks where "select_keys cw d vs = Inr ks" by auto
  moreover from Cons.prems map_of_keyI[of v d] obtain s where "map_of d v = Some s" by auto
  ultimately show ?case by simp
qed

lemma select_keys_entry:
  "select_keys cw d vs = Inr ks \<Longrightarrow> (k, v) \<in> set ks \<Longrightarrow>
     \<exists>dv. map_of d v = Some dv \<and> fst k = length dv"
  by (induction vs arbitrary: ks) (auto split: option.splits sum.splits)

lemma select_keys_has:
  "select_keys cw d vs = Inr ks \<Longrightarrow> v \<in> set vs \<Longrightarrow> map_of d v = Some dv \<Longrightarrow>
     \<exists>z. ((length dv, z), v) \<in> set ks"
  by (induction vs arbitrary: ks) (auto split: option.splits sum.splits)

lemma sort_key_head_least:
  fixes f :: "'a \<Rightarrow> 'k::linorder"
  assumes "sort_key f xs = y # ys" "x \<in> set xs"
  shows "f y \<le> f x"
proof -
  have "sorted (map f (sort_key f xs))" by (rule sorted_sort_key)
  with assms(1) have "\<forall>z \<in> set ys. f y \<le> f z" by simp
  moreover from assms have "x \<in> set (y # ys)" by (metis set_sort)
  ultimately show ?thesis by auto
qed

lemma select_unassigned_variable_least:
  assumes s: "select_unassigned_variable cw d a = Inr (Some var)"
    and x: "x \<in> set (variables cw)" "x \<notin> set (map fst a)" "map_of d x = Some dx"
  shows "\<exists>dv. map_of d var = Some dv \<and> length dv \<le> length dx"
proof -
  from s obtain ks where ks: "select_keys cw d [v \<leftarrow> variables cw. v \<notin> set (map fst a)] = Inr ks"
    and v: "(case map snd (sort_key fst ks) of [] \<Rightarrow> None | v # rest \<Rightarrow> Some v) = Some var"
    by (auto simp: select_unassigned_variable_def Let_def split: sum.splits)
  from v obtain k zs where srt: "sort_key fst ks = (k, var) # zs" by (auto split: list.splits)
  then have "(k, var) \<in> set (sort_key fst ks)" by simp
  then have "(k, var) \<in> set ks" by simp
  from select_keys_entry[OF ks this] obtain dv where dv: "map_of d var = Some dv" "fst k = length dv"
    by blast
  from x have "x \<in> set [v \<leftarrow> variables cw. v \<notin> set (map fst a)]" by simp
  from select_keys_has[OF ks this x(3)] obtain z where "((length dx, z), x) \<in> set ks" by blast
  from sort_key_head_least[OF srt this] have "k \<le> (length dx, z)" by simp
  then have "fst k \<le> length dx" by (cases k) (auto simp: less_eq_prod_def)
  with dv show ?thesis by simp
qed

lemma select_unassigned_variable_ok:
  assumes "set (variables cw) \<subseteq> fst ` set d" "\<not> assignment_complete cw a"
  shows "\<exists>var. select_unassigned_variable cw d a = Inr (Some var)"
proof -
  let ?vs = "[v \<leftarrow> variables cw. v \<notin> set (map fst a)]"
  from assms(1) have "\<forall>v \<in> set ?vs. v \<in> fst ` set d" by auto
  from select_keys_ok[OF this] obtain ks where ks: "select_keys cw d ?vs = Inr ks" by blast
  from assms(2) have "?vs \<noteq> []" by (simp add: assignment_complete_def)
  with select_keys_vars[OF ks] have "ks \<noteq> []" by auto
  then have "sort_key fst ks \<noteq> []" by (metis length_sort list.size(3) length_0_conv)
  then obtain k v zs where "sort_key fst ks = (k, v) # zs" by (cases "sort_key fst ks") auto
  with ks show ?thesis by (simp add: select_unassigned_variable_def)
qed


section \<open>What solve does when propagation fails\<close>

lemma all_arcs_variables: "(x, y) \<in> set (all_arcs cw) \<Longrightarrow> x \<in> set (variables cw)"
  by (auto simp: all_arcs_def)

lemma ac3_loop_failure:
  "ac3_loop cw d queue = Inr (False, d') \<Longrightarrow> \<forall>(x, y) \<in> set queue. x \<in> set (variables cw) \<Longrightarrow>
     \<exists>x \<in> set (variables cw). map_of d' x = Some []"
proof (induction cw d queue rule: ac3_loop.induct)
  case (1 cw d)
  then show ?case by simp
next
  case (2 cw d x y queue)
  note res = \<open>ac3_loop cw d ((x, y) # queue) = Inr (False, d')\<close>
  from "2.prems"(2) have x: "x \<in> set (variables cw)"
    and q: "\<forall>(x, y) \<in> set queue. x \<in> set (variables cw)" by simp_all
  show ?case
  proof (cases "revise cw d x y")
    case (Inl e)
    with res show ?thesis by simp
  next
    case (Inr t)
    obtain revised d1 where t: "t = (revised, d1)" by (cases t)
    show ?thesis
    proof (cases revised)
      case False
      with res Inr t have "ac3_loop cw d1 queue = Inr (False, d')" by simp
      from "2.IH"(2)[OF Inr[unfolded t] refl False this q] show ?thesis .
    next
      case True
      show ?thesis
      proof (cases "map_of d1 x")
        case None
        with res Inr t True show ?thesis by simp
      next
        case (Some dx)
        show ?thesis
        proof (cases "length dx = 0")
          case z: True
          with res Inr t True Some have "d' = d1" by simp
          with Some z x show ?thesis by auto
        next
          case nz: False
          let ?q = "queue @ map (\<lambda>neighbor. (neighbor, x)) (removeAll y (neighbors cw x))"
          from res Inr t True Some nz have l: "ac3_loop cw d1 ?q = Inr (False, d')" by simp
          have "\<forall>(x, y) \<in> set ?q. x \<in> set (variables cw)"
            using q by (auto dest: neighbors_overlap)
          from "2.IH"(1)[OF Inr[unfolded t] refl True Some nz l this] show ?thesis .
        qed
      qed
    qed
  qed
qed

lemma consistent_empty: "consistent cw [] = Inr True"
  by (simp add: consistent_def)

lemma backtrack_empty_domain:
  assumes keys: "set (variables cw) \<subseteq> fst ` set d"
    and x: "x \<in> set (variables cw)" "map_of d x = Some []"
  shows "backtrack cw d [] = Inr (False, [], d)"
proof -
  from x(1) have nc: "\<not> assignment_complete cw []" by (auto simp: assignment_complete_def)
  from select_unassigned_variable_ok[OF keys nc] obtain var where
    s: "select_unassigned_variable cw d [] = Inr (Some var)" by blast
  from select_unassigned_variable_least[OF s x(1) _ x(2)] have v: "map_of d var = Some []" by simp
  then have o: "order_domain_values cw d var [] = Inr ([], d)"
    by (simp add: order_domain_values_def)
  from nc s o show ?thesis by (simp add: consistent_empty)
qed

lemma solve_traced_result:
  "solve cw d = (case solve_traced cw d of Inl e \<Rightarrow> Inl e | Inr (r, calls) \<Rightarrow> Inr r)"
  unfolding solve_def solve_traced_def Let_def
  by (simp del: backtrack.simps split: sum.splits prod.splits)

text \<open>
  Claim C3, as the code has it. When \<^verbatim>\<open>ac3()\<close> reports failure, \<^verbatim>\<open>solve()\<close> ignores the
  report and still calls \<^verbatim>\<open>backtrack\<close> on the empty assignment; on a store with an
  entry for every variable that search selects a variable with an empty domain, tries no
  value, and \<^verbatim>\<open>solve()\<close> returns the failure value.
\<close>

theorem solve_searches_after_ac3_failure:
  assumes keys: "set (variables cw) \<subseteq> fst ` set d"
    and fail: "ac3 cw (enforce_node_consistency d) None = Inr (False, d2)"
  shows "solve_traced cw d =
           Inr (None, [Call_enforce_node_consistency, Call_ac3 False, Call_backtrack]) \<and>
         solve cw d = Inr None"
proof -
  let ?d1 = "enforce_node_consistency d"
  from fail have l: "ac3_loop cw ?d1 (all_arcs cw) = Inr (False, d2)" by (simp add: ac3_def)
  have "\<forall>(x, y) \<in> set (all_arcs cw). x \<in> set (variables cw)"
    by (auto dest: all_arcs_variables)
  from ac3_loop_failure[OF l this] obtain x where
    x: "x \<in> set (variables cw)" "map_of d2 x = Some []" by blast
  from ac3_loop_subset[OF l] enforce_node_consistency_subset[of d]
  have "domains_subset d2 d" by (rule domains_subset_trans)
  then have "map fst d2 = map fst d" by (rule domains_subsetD(1))
  then have "fst ` set d2 = fst ` set d" by (metis set_map)
  with keys have "set (variables cw) \<subseteq> fst ` set d2" by simp
  from backtrack_empty_domain[OF this x] have b: "backtrack cw d2 [] = Inr (False, [], d2)" .
  from fail b have t: "solve_traced cw d =
           Inr (None, [Call_enforce_node_consistency, Call_ac3 False, Call_backtrack])"
    by (simp add: solve_traced_def del: backtrack.simps)
  then show ?thesis by (simp add: solve_traced_result)
qed

text \<open>Two words that cannot cross in the hook crossword.\<close>

definition no_cross :: "string list" where
  "no_cross = [''AB'', ''CD'']"

theorem solve_searches_after_ac3_failure_witness:
  "set (variables (hook no_cross)) \<subseteq> fst ` set (init_domains (hook no_cross)) \<and>
   ac3 (hook no_cross) (enforce_node_consistency (init_domains (hook no_cross))) None
     = Inr (False, [(across2, []), (down2r, no_cross)]) \<and>
   solve_traced (hook no_cross) (init_domains (hook no_cross))
     = Inr (None, [Call_enforce_node_consistency, Call_ac3 False, Call_backtrack]) \<and>
   solve (hook no_cross) (init_domains (hook no_cross)) = Inr None"
proof -
  have k: "set (variables (hook no_cross)) \<subseteq> fst ` set (init_domains (hook no_cross))"
    by code_simp
  have f: "ac3 (hook no_cross) (enforce_node_consistency (init_domains (hook no_cross))) None
     = Inr (False, [(across2, []), (down2r, no_cross)])"
    by code_simp
  from solve_searches_after_ac3_failure[OF k f] k f show ?thesis by blast
qed

text \<open>
  The claim as the specification states it fails: on the hook crossword with two words
  that cannot cross, \<^verbatim>\<open>ac3()\<close> returns \<^verbatim>\<open>False\<close> and the call log of \<^verbatim>\<open>solve()\<close> has the
  call of \<^verbatim>\<open>backtrack\<close> after it.
\<close>

theorem solve_skips_search_counterexample:
  "ac3 (hook [''AB'', ''CD'']) (enforce_node_consistency (init_domains (hook [''AB'', ''CD'']))) None
     = Inr (False, [(across2, []), (down2r, [''AB'', ''CD''])]) \<and>
   solve_traced (hook [''AB'', ''CD'']) (init_domains (hook [''AB'', ''CD'']))
     = Inr (None, [Call_enforce_node_consistency, Call_ac3 False, Call_backtrack]) \<and>
   Call_backtrack \<in> set [Call_enforce_node_consistency, Call_ac3 False, Call_backtrack]"
  by code_simp

section \<open>The order of the values\<close>

text \<open>
  The number of values that the choice of \<open>v\<close> for \<open>var\<close> eliminates, in the
  specification's words: for each unassigned neighbor \<open>n\<close> of \<open>var\<close> with overlap
  \<open>(k, j)\<close>, the values \<open>u\<close> of the domain of \<open>n\<close> with \<open>v[k] \<noteq> u[j]\<close>, summed over
  the unassigned neighbors.
\<close>

definition eliminated :: "crossword \<Rightarrow> domains \<Rightarrow> assignment \<Rightarrow> variable \<Rightarrow> string \<Rightarrow> nat" where
  "eliminated cw d a var v =
     sum_list (map (\<lambda>n. case overlaps cw (var, n) of
                           Some (Some (k, j)) \<Rightarrow>
                             (case map_of d n of
                                Some dn \<Rightarrow> length [u \<leftarrow> dn. v ! k \<noteq> u ! j]
                              | None \<Rightarrow> 0)
                         | _ \<Rightarrow> 0)
                   [n \<leftarrow> neighbors cw var. n \<notin> set (map fst a)])"

text \<open>
  Claim C5 does not hold of the code. \<^verbatim>\<open>order_domain_values\<close> sorts the values by
  \<^verbatim>\<open>_value\<close> and then overwrites the sorted list with a copy of the domain, which it
  returns. In the corner crossword the first value of the domain eliminates two values
  of the other slot and the values after it eliminate one each; the values come back in
  the order of the domain.
\<close>

theorem order_domain_values_unsorted:
  "order_domain_values (corner fruit) fruit_domains across2 [] = Inr (fruit, fruit_domains) \<and>
   map (eliminated (corner fruit) fruit_domains [] across2) fruit = [2, 1, 1] \<and>
   \<not> sorted (map (eliminated (corner fruit) fruit_domains [] across2) fruit)"
  by code_simp

section \<open>Arc consistency after AC-3\<close>

text \<open>
  A word \<open>w\<close> is supported in the domain of \<open>y\<close> at the indices \<open>(i, j)\<close> when some
  word \<open>w'\<close> of that domain has \<open>w[i] == w'[j]\<close>. The arc \<open>(x, y)\<close> is consistent when
  every word of the domain of \<open>x\<close> is supported in the domain of \<open>y\<close> at the overlap
  of \<open>x\<close> and \<open>y\<close>.
\<close>

definition supported :: "domains \<Rightarrow> variable \<Rightarrow> nat \<Rightarrow> nat \<Rightarrow> string \<Rightarrow> bool" where
  "supported d y i j w =
     (case map_of d y of
        None \<Rightarrow> False
      | Some dy \<Rightarrow> (\<exists>w' \<in> set dy. i < length w \<and> j < length w' \<and> w ! i = w' ! j))"

definition arc_consistent :: "crossword \<Rightarrow> domains \<Rightarrow> variable \<Rightarrow> variable \<Rightarrow> bool" where
  "arc_consistent cw d x y =
     (case overlaps cw (x, y) of
        Some (Some (i, j)) \<Rightarrow>
          (case map_of d x of
             None \<Rightarrow> True
           | Some dx \<Rightarrow> (\<forall>w \<in> set dx. supported d y i j w))
      | _ \<Rightarrow> True)"

text \<open>The graph invariant of the specification: the overlap table is symmetric.\<close>

definition overlaps_symmetric :: "crossword \<Rightarrow> bool" where
  "overlaps_symmetric cw =
     (\<forall>x \<in> set (variables cw). \<forall>y \<in> set (variables cw).
        (case overlaps cw (x, y) of
           Some (Some (i, j)) \<Rightarrow> overlaps cw (y, x) = Some (Some (j, i))
         | _ \<Rightarrow> True))"

lemma overlaps_symmetricD:
  "overlaps_symmetric cw \<Longrightarrow> x \<in> set (variables cw) \<Longrightarrow> y \<in> set (variables cw) \<Longrightarrow>
     overlaps cw (x, y) = Some (Some (i, j)) \<Longrightarrow> overlaps cw (y, x) = Some (Some (j, i))"
  unfolding overlaps_symmetric_def by fastforce

lemma neighbors_iff:
  "y \<in> set (neighbors cw x) \<longleftrightarrow>
     y \<in> set (variables cw) \<and> y \<noteq> x \<and> (\<exists>i j. overlaps cw (x, y) = Some (Some (i, j)))"
  by (auto simp: neighbors_def has_overlap_def split: option.splits)

lemma neighbors_symmetric:
  assumes "overlaps_symmetric cw" "x \<in> set (variables cw)" "y \<in> set (neighbors cw x)"
  shows "x \<in> set (neighbors cw y)"
proof -
  from assms(3) obtain i j where y: "y \<in> set (variables cw)" "y \<noteq> x"
    and o: "overlaps cw (x, y) = Some (Some (i, j))" by (auto simp: neighbors_iff)
  from overlaps_symmetricD[OF assms(1,2) y(1) o] assms(2) y(2) show ?thesis
    by (auto simp: neighbors_iff)
qed

lemma arc_consistentI:
  assumes "\<And>i j dx w. overlaps cw (x, y) = Some (Some (i, j)) \<Longrightarrow> map_of d x = Some dx \<Longrightarrow>
             w \<in> set dx \<Longrightarrow> supported d y i j w"
  shows "arc_consistent cw d x y"
  unfolding arc_consistent_def using assms by (auto split: option.splits)

lemma arc_consistentD:
  assumes "arc_consistent cw d x y" "overlaps cw (x, y) = Some (Some (i, j))"
    "map_of d x = Some dx" "w \<in> set dx"
  shows "supported d y i j w"
  using assms unfolding arc_consistent_def by simp

lemma supportedD:
  assumes "supported d y i j w"
  obtains dy w' where "map_of d y = Some dy" "w' \<in> set dy" "i < length w" "j < length w'"
    "w ! i = w' ! j"
  using assms unfolding supported_def by (cases "map_of d y") auto

lemma supportedI:
  "map_of d y = Some dy \<Longrightarrow> w' \<in> set dy \<Longrightarrow> i < length w \<Longrightarrow> j < length w' \<Longrightarrow>
     w ! i = w' ! j \<Longrightarrow> supported d y i j w"
  unfolding supported_def by auto

lemma find_match_True:
  "find_match w i j ys = Inr True \<Longrightarrow>
     \<exists>w' \<in> set ys. i < length w \<and> j < length w' \<and> w ! i = w' ! j"
proof (induction ys)
  case Nil
  then show ?case by simp
next
  case (Cons y ys)
  show ?case
  proof (cases "length w \<le> i \<or> length y \<le> j")
    case True
    with Cons.prems show ?thesis by simp
  next
    case False
    show ?thesis
    proof (cases "w ! i = y ! j")
      case True
      with False show ?thesis by auto
    next
      case ne: False
      with False Cons.prems have "find_match w i j ys = Inr True" by simp
      from Cons.IH[OF this] show ?thesis by auto
    qed
  qed
qed

lemma find_match_False:
  "find_match w i j ys = Inr False \<Longrightarrow> w' \<in> set ys \<Longrightarrow> w ! i \<noteq> w' ! j"
proof (induction ys)
  case Nil
  then show ?case by simp
next
  case (Cons y ys)
  from Cons.prems(1) have *: "\<not> (length w \<le> i \<or> length y \<le> j)" "w ! i \<noteq> y ! j"
    "find_match w i j ys = Inr False"
    by (simp_all split: if_splits)
  show ?case
  proof (cases "w' = y")
    case True
    with * show ?thesis by simp
  next
    case False
    with Cons.prems(2) have "w' \<in> set ys" by simp
    from Cons.IH[OF *(3) this] show ?thesis .
  qed
qed

lemma to_remove_Cons:
  assumes "to_remove d y i j (w # xs) = Inr r"
  obtains dy m r' where "map_of d y = Some dy" "find_match w i j dy = Inr m"
    "to_remove d y i j xs = Inr r'" "r = (if m then r' else w # r')"
  using assms by (auto split: option.splits sum.splits)

lemma to_remove_keep:
  "to_remove d y i j xs = Inr r \<Longrightarrow> w \<in> set xs \<Longrightarrow> w \<notin> set r \<Longrightarrow> supported d y i j w"
proof (induction xs arbitrary: r)
  case Nil
  then show ?case by simp
next
  case (Cons x xs)
  from Cons.prems(1) obtain dy m r' where *: "map_of d y = Some dy" "find_match x i j dy = Inr m"
    "to_remove d y i j xs = Inr r'" "r = (if m then r' else x # r')"
    by (rule to_remove_Cons)
  show ?case
  proof (cases "w = x")
    case True
    with Cons.prems(3) * have "m" by (cases m) auto
    with * True find_match_True[of x i j dy] show ?thesis
      by (auto intro: supportedI)
  next
    case False
    with Cons.prems(2) have "w \<in> set xs" by simp
    moreover from Cons.prems(3) * have "w \<notin> set r'" by (cases m) auto
    ultimately show ?thesis using Cons.IH[OF *(3)] by blast
  qed
qed

lemma to_remove_drop:
  "to_remove d y i j xs = Inr r \<Longrightarrow> w \<in> set r \<Longrightarrow>
     \<exists>dy. map_of d y = Some dy \<and> (\<forall>w' \<in> set dy. w ! i \<noteq> w' ! j)"
proof (induction xs arbitrary: r)
  case Nil
  then show ?case by simp
next
  case (Cons x xs)
  from Cons.prems(1) obtain dy m r' where *: "map_of d y = Some dy" "find_match x i j dy = Inr m"
    "to_remove d y i j xs = Inr r'" "r = (if m then r' else x # r')"
    by (rule to_remove_Cons)
  show ?case
  proof (cases "w \<in> set r'")
    case True
    from Cons.IH[OF *(3) this] show ?thesis .
  next
    case False
    with Cons.prems(2) * have "\<not> m" "w = x" by (cases m; auto)+
    with * find_match_False[of x i j dy] show ?thesis by auto
  qed
qed


lemma revise_other:
  assumes "revise cw d x y = Inr (b, d1)" "v \<noteq> x"
  shows "map_of d1 v = map_of d v"
  using revise_cases[OF assms(1)] assms(2) by (auto simp: update_conv')

lemma revise_changed:
  assumes "revise cw d x y = Inr (True, d1)"
  obtains i j dx r where "overlaps cw (x, y) = Some (Some (i, j))" "map_of d x = Some dx"
    "to_remove d y i j dx = Inr r" "map_of d1 x = Some [w \<leftarrow> dx. w \<notin> set r]"
  using revise_cases[OF assms] by (auto simp: update_conv' remove_words_filter)

lemma revise_unchanged:
  assumes "revise cw d x y = Inr (False, d1)"
  shows "d1 = d"
    and "overlaps cw (x, y) = Some (Some (i, j)) \<Longrightarrow>
           \<exists>dx. map_of d x = Some dx \<and> to_remove d y i j dx = Inr []"
  using revise_cases[OF assms] revise_total[OF assms] by auto

lemma supported_cong:
  "map_of d1 y = map_of d y \<Longrightarrow> supported d1 y i j w = supported d y i j w"
  by (simp add: supported_def)

lemma revise_establishes:
  assumes r: "revise cw d x y = Inr (b, d1)" and ne: "y \<noteq> x"
  shows "arc_consistent cw d1 x y"
proof (rule arc_consistentI)
  fix i j s1 w
  assume o: "overlaps cw (x, y) = Some (Some (i, j))" and s1: "map_of d1 x = Some s1"
    and w: "w \<in> set s1"
  from revise_other[OF r ne] have y: "map_of d1 y = map_of d y" .
  have "supported d y i j w"
  proof (cases b)
    case True
    with r have r': "revise cw d x y = Inr (True, d1)" by simp
    then obtain i' j' dx rm where *: "overlaps cw (x, y) = Some (Some (i', j'))"
      "map_of d x = Some dx" "to_remove d y i' j' dx = Inr rm"
      "map_of d1 x = Some [w \<leftarrow> dx. w \<notin> set rm]"
      by (rule revise_changed)
    from *(1) o have ij: "i' = i" "j' = j" by simp_all
    from *(4) s1 have "s1 = [w \<leftarrow> dx. w \<notin> set rm]" by simp
    with w have "w \<in> set dx" "w \<notin> set rm" by simp_all
    from to_remove_keep[OF *(3) this] ij show ?thesis by simp
  next
    case False
    with r have u: "revise cw d x y = Inr (False, d1)" by simp
    from revise_unchanged(1)[OF u] have "d1 = d" .
    moreover from revise_unchanged(2)[OF u o] obtain dx where
      "map_of d x = Some dx" "to_remove d y i j dx = Inr []" by blast
    ultimately have t: "to_remove d y i j s1 = Inr []" using s1 by simp
    show ?thesis by (rule to_remove_keep[OF t w]) simp
  qed
  with supported_cong[OF y] show "supported d1 y i j w" by simp
qed

lemma revise_domain_subset:
  assumes r: "revise cw d x y = Inr (b, d1)" and s1: "map_of d1 v = Some s1"
  shows "\<exists>s. map_of d v = Some s \<and> set s1 \<subseteq> set s"
proof -
  from revise_subset[OF r] have sub: "domains_subset d1 d" .
  from s1 have "v \<in> fst ` set d1" by (metis map_of_eq_None_iff option.distinct(1))
  with domains_subsetD(1)[OF sub] have "v \<in> fst ` set d" by (metis set_map)
  from map_of_keyI[OF this] obtain s where s: "map_of d v = Some s" by blast
  from domains_subsetD(2)[OF sub s] s1 s show ?thesis by auto
qed

lemma revise_keeps_forward:
  assumes r: "revise cw d x y = Inr (b, d1)" and ac: "arc_consistent cw d a c" and c: "c \<noteq> x"
  shows "arc_consistent cw d1 a c"
proof (rule arc_consistentI)
  fix i j s1 w
  assume o: "overlaps cw (a, c) = Some (Some (i, j))" and s1: "map_of d1 a = Some s1"
    and w: "w \<in> set s1"
  from revise_domain_subset[OF r s1] obtain s where s: "map_of d a = Some s" "set s1 \<subseteq> set s"
    by blast
  with w have "w \<in> set s" by auto
  from arc_consistentD[OF ac o s(1) this] have "supported d c i j w" .
  with supported_cong[OF revise_other[OF r c]] show "supported d1 c i j w" by simp
qed

lemma revise_keeps_back:
  assumes sym: "overlaps_symmetric cw" and x: "x \<in> set (variables cw)" and y: "y \<in> set (variables cw)"
    and ne: "y \<noteq> x" and r: "revise cw d x y = Inr (b, d1)" and ac: "arc_consistent cw d y x"
  shows "arc_consistent cw d1 y x"
proof (cases b)
  case False
  with r revise_unchanged(1)[of cw d x y d1] ac show ?thesis by simp
next
  case True
  with r have r': "revise cw d x y = Inr (True, d1)" by simp
  then obtain i j dx rm where *: "overlaps cw (x, y) = Some (Some (i, j))"
    "map_of d x = Some dx" "to_remove d y i j dx = Inr rm"
    "map_of d1 x = Some [w \<leftarrow> dx. w \<notin> set rm]"
    by (rule revise_changed)
  from overlaps_symmetricD[OF sym x y *(1)] have oyx: "overlaps cw (y, x) = Some (Some (j, i))" .
  from revise_other[OF r ne] have dy: "map_of d1 y = map_of d y" .
  show ?thesis
  proof (rule arc_consistentI)
    fix j' i' sy w
    assume o: "overlaps cw (y, x) = Some (Some (j', i'))" and sy: "map_of d1 y = Some sy"
      and w: "w \<in> set sy"
    from o oyx have [simp]: "j' = j" "i' = i" by simp_all
    from sy dy have sy': "map_of d y = Some sy" by simp
    from arc_consistentD[OF ac oyx sy' w] have "supported d x j i w" .
    then obtain dx' w' where "map_of d x = Some dx'" and
      w'0: "w' \<in> set dx'" "j < length w" "i < length w'" "w ! j = w' ! i"
      by (rule supportedD)
    with *(2) have w': "w' \<in> set dx" "j < length w" "i < length w'" "w ! j = w' ! i"
      by simp_all
    have "w' \<notin> set rm"
    proof
      assume "w' \<in> set rm"
      from to_remove_drop[OF *(3) this] sy' have "\<forall>u \<in> set sy. w' ! i \<noteq> u ! j" by simp
      with w w'(4) show False by auto
    qed
    with w' *(4) show "supported d1 x j' i' w"
      by (auto intro!: supportedI)
  qed
qed

text \<open>
  The invariant of the loop of \<^verbatim>\<open>ac3\<close>: an arc from a variable of the graph to one of
  its neighbors is in the queue or consistent.
\<close>

definition queued_or_consistent ::
  "crossword \<Rightarrow> domains \<Rightarrow> (variable \<times> variable) list \<Rightarrow> bool" where
  "queued_or_consistent cw d queue =
     (\<forall>x \<in> set (variables cw). \<forall>y \<in> set (neighbors cw x).
        (x, y) \<in> set queue \<or> arc_consistent cw d x y)"

lemma queued_or_consistent_step:
  assumes sym: "overlaps_symmetric cw"
    and inv: "queued_or_consistent cw d ((x, y) # queue)"
    and r: "revise cw d x y = Inr (b, d1)"
  shows "queued_or_consistent cw d1
           (if b then queue @ map (\<lambda>neighbor. (neighbor, x)) (removeAll y (neighbors cw x))
            else queue)"
  unfolding queued_or_consistent_def
proof (intro ballI)
  fix a c assume a: "a \<in> set (variables cw)" and c: "c \<in> set (neighbors cw a)"
  let ?q = "if b then queue @ map (\<lambda>neighbor. (neighbor, x)) (removeAll y (neighbors cw x))
            else queue"
  from c have cv: "c \<in> set (variables cw)" and ca: "c \<noteq> a" by (auto simp: neighbors_iff)
  from inv a c have pre: "(a, c) = (x, y) \<or> (a, c) \<in> set queue \<or> arc_consistent cw d a c"
    unfolding queued_or_consistent_def by auto
  show "(a, c) \<in> set ?q \<or> arc_consistent cw d1 a c"
  proof (cases "(a, c) \<in> set queue")
    case True
    then show ?thesis by auto
  next
    case nq: False
    show ?thesis
    proof (cases "(a, c) = (x, y)")
      case True
      with ca have "y \<noteq> x" by auto
      from revise_establishes[OF r this] True show ?thesis by simp
    next
      case False
      with pre nq have ac: "arc_consistent cw d a c" by blast
      show ?thesis
      proof (cases "c = x")
        case cx: False
        from revise_keeps_forward[OF r ac cx] show ?thesis by simp
      next
        case cx: True
        show ?thesis
        proof (cases b)
          case nb: False
          with r revise_unchanged(1)[of cw d x y d1] ac show ?thesis by simp
        next
          case b: True
          show ?thesis
          proof (cases "a = y")
            case True
            from cx cv have xv: "x \<in> set (variables cw)" by simp
            from True ca cx have "y \<noteq> x" by simp
            from revise_keeps_back[OF sym xv _ this r] a ac True cx show ?thesis by simp
          next
            case False
            from neighbors_symmetric[OF sym a c] cx have "a \<in> set (neighbors cw x)" by simp
            with False b show ?thesis using cx by auto
          qed
        qed
      qed
    qed
  qed
qed

lemma ac3_loop_consistent:
  "ac3_loop cw d queue = Inr (True, d') \<Longrightarrow> overlaps_symmetric cw \<Longrightarrow>
     queued_or_consistent cw d queue \<Longrightarrow> queued_or_consistent cw d' []"
proof (induction cw d queue rule: ac3_loop.induct)
  case (1 cw d)
  then show ?case by simp
next
  case (2 cw d x y queue)
  note res = \<open>ac3_loop cw d ((x, y) # queue) = Inr (True, d')\<close>
  note sym = \<open>overlaps_symmetric cw\<close>
  show ?case
  proof (cases "revise cw d x y")
    case (Inl e)
    with res show ?thesis by simp
  next
    case (Inr t)
    obtain revised d1 where t: "t = (revised, d1)" by (cases t)
    note step = queued_or_consistent_step[OF sym "2.prems"(3) Inr[unfolded t]]
    show ?thesis
    proof (cases revised)
      case False
      with res Inr t have l: "ac3_loop cw d1 queue = Inr (True, d')" by simp
      from step False have "queued_or_consistent cw d1 queue" by simp
      from "2.IH"(2)[OF Inr[unfolded t] refl False l sym this] show ?thesis .
    next
      case True
      show ?thesis
      proof (cases "map_of d1 x")
        case None
        with res Inr t True show ?thesis by simp
      next
        case (Some dx)
        show ?thesis
        proof (cases "length dx = 0")
          case z: True
          with res Inr t True Some show ?thesis by simp
        next
          case nz: False
          let ?q = "queue @ map (\<lambda>neighbor. (neighbor, x)) (removeAll y (neighbors cw x))"
          from res Inr t True Some nz have l: "ac3_loop cw d1 ?q = Inr (True, d')" by simp
          from step True have "queued_or_consistent cw d1 ?q" by simp
          from "2.IH"(1)[OF Inr[unfolded t] refl True Some nz l sym this] show ?thesis .
        qed
      qed
    qed
  qed
qed

lemma queued_or_consistent_all_arcs: "queued_or_consistent cw d (all_arcs cw)"
  by (auto simp: queued_or_consistent_def all_arcs_def)

text \<open>
  Claim C4. When \<^verbatim>\<open>ac3()\<close>, called with \<^verbatim>\<open>arcs = None\<close> on a crossword with a symmetric
  overlap table, returns success, then for every variable \<open>x\<close>, every neighbor \<open>y\<close> of
  \<open>x\<close> with overlap \<open>(i, j)\<close> and every word \<open>w\<close> left in the domain of \<open>x\<close> there is
  a word \<open>w'\<close> in the domain of \<open>y\<close> with \<open>w[i] == w'[j]\<close>.
\<close>

theorem ac3_arc_consistent:
  assumes "overlaps_symmetric cw" and "ac3 cw d None = Inr (True, d')"
  shows "\<forall>x \<in> set (variables cw). \<forall>y \<in> set (neighbors cw x). arc_consistent cw d' x y"
proof -
  from assms(2) have "ac3_loop cw d (all_arcs cw) = Inr (True, d')" by (simp add: ac3_def)
  from ac3_loop_consistent[OF this assms(1) queued_or_consistent_all_arcs]
  show ?thesis by (simp add: queued_or_consistent_def)
qed

theorem ac3_arc_consistent_witness:
  "overlaps_symmetric (hook hook_words) \<and>
   ac3 (hook hook_words) hook_domains None = Inr (True, [(across2, [''AB'']), (down2r, [''BE''])]) \<and>
   arc_consistent (hook hook_words) [(across2, [''AB'']), (down2r, [''BE''])] across2 down2r \<and>
   arc_consistent (hook hook_words) [(across2, [''AB'']), (down2r, [''BE''])] down2r across2"
proof -
  have s: "overlaps_symmetric (hook hook_words)" by code_simp
  have a: "ac3 (hook hook_words) hook_domains None
             = Inr (True, [(across2, [''AB'']), (down2r, [''BE''])])"
    by code_simp
  have v: "across2 \<in> set (variables (hook hook_words))"
    "down2r \<in> set (variables (hook hook_words))" by code_simp+
  have n: "down2r \<in> set (neighbors (hook hook_words) across2)"
    "across2 \<in> set (neighbors (hook hook_words) down2r)" by code_simp+
  from ac3_arc_consistent[OF s a] v n s a show ?thesis by blast
qed

section \<open>Completeness of the search\<close>

text \<open>
  The overlap table has an entry for every ordered pair of two different variables of
  the graph.
\<close>

definition overlaps_total :: "crossword \<Rightarrow> bool" where
  "overlaps_total cw =
     (\<forall>x \<in> set (variables cw). \<forall>y \<in> set (variables cw). x \<noteq> y \<longrightarrow> overlaps cw (x, y) \<noteq> None)"

text \<open>
  \<open>fits cw d\<close>: the store has a domain for every variable of the graph, and the words
  of the domain have the length of the variable. \<open>within cw s d\<close>: the assignment \<open>s\<close>
  gives every variable of the graph a word of its domain.
\<close>

definition fits :: "crossword \<Rightarrow> domains \<Rightarrow> bool" where
  "fits cw d =
     (\<forall>v \<in> set (variables cw).
        case map_of d v of None \<Rightarrow> False | Some dv \<Rightarrow> (\<forall>u \<in> set dv. length u = var_length v))"

definition within :: "crossword \<Rightarrow> assignment \<Rightarrow> domains \<Rightarrow> bool" where
  "within cw s d =
     (\<forall>v \<in> set (variables cw).
        case map_of s v of
          None \<Rightarrow> False
        | Some w \<Rightarrow> (case map_of d v of None \<Rightarrow> False | Some dv \<Rightarrow> w \<in> set dv))"

lemma fitsD:
  assumes "fits cw d" "v \<in> set (variables cw)"
  obtains dv where "map_of d v = Some dv" "\<forall>u \<in> set dv. length u = var_length v"
  using assms unfolding fits_def by (cases "map_of d v") fastforce+

lemma withinD:
  assumes "within cw s d" "v \<in> set (variables cw)"
  obtains w dv where "map_of s v = Some w" "map_of d v = Some dv" "w \<in> set dv"
proof -
  from assms have *: "case map_of s v of
          None \<Rightarrow> False
        | Some w \<Rightarrow> (case map_of d v of None \<Rightarrow> False | Some dv \<Rightarrow> w \<in> set dv)"
    unfolding within_def by blast
  then obtain w where w: "map_of s v = Some w" by (cases "map_of s v") simp_all
  with * obtain dv where "map_of d v = Some dv" "w \<in> set dv" by (cases "map_of d v") simp_all
  with w that show thesis by blast
qed

lemma fits_keys: "fits cw d \<Longrightarrow> set (variables cw) \<subseteq> fst ` set d"
proof
  fix v assume "fits cw d" "v \<in> set (variables cw)"
  then obtain dv where "map_of d v = Some dv" by (rule fitsD)
  then show "v \<in> fst ` set d" by (metis map_of_eq_None_iff option.distinct(1))
qed

lemma fits_subset:
  assumes "fits cw d" "domains_subset d' d"
  shows "fits cw d'"
  unfolding fits_def
proof
  fix v assume v: "v \<in> set (variables cw)"
  from assms(1) v obtain dv where dv: "map_of d v = Some dv"
    "\<forall>u \<in> set dv. length u = var_length v" by (rule fitsD)
  from domains_subsetD(2)[OF assms(2) dv(1)] obtain s' where "map_of d' v = Some s'" "set s' \<subseteq> set dv"
    by blast
  with dv(2) show "case map_of d' v of None \<Rightarrow> False
                   | Some dv \<Rightarrow> (\<forall>u \<in> set dv. length u = var_length v)" by auto
qed

lemma map_of_init_domains:
  "v \<in> set (variables cw) \<Longrightarrow> map_of (init_domains cw) v = Some (words cw)"
proof -
  have "v \<in> set vs \<Longrightarrow> map_of (map (\<lambda>var. (var, ws)) vs) v = Some ws" for vs and ws :: "string list"
    by (induction vs) auto
  then show "v \<in> set (variables cw) \<Longrightarrow> ?thesis" by (simp add: init_domains_def)
qed

lemma fits_initial: "fits cw (enforce_node_consistency (init_domains cw))"
  unfolding fits_def
  by (simp add: map_of_enforce_node_consistency map_of_init_domains)

text \<open>What the completeness claim assumes of the assignment \<open>s\<close>.\<close>

definition solution :: "crossword \<Rightarrow> assignment \<Rightarrow> bool" where
  "solution cw s =
     (complete_spec cw s \<and> consistent_spec cw s \<and> (\<forall>(v, w) \<in> set s. w \<in> set (words cw)))"

lemma solution_entry:
  assumes "solution cw s" "v \<in> set (variables cw)"
  obtains w where "map_of s v = Some w" "(v, w) \<in> set s" "length w = var_length v"
    "w \<in> set (words cw)"
proof -
  from assms have "v \<in> fst ` set s" by (simp add: solution_def complete_spec_def)
  from map_of_keyI[OF this] obtain w where w: "map_of s v = Some w" by blast
  then have m: "(v, w) \<in> set s" by (rule map_of_SomeD)
  with assms(1) consistent_specD(2)[of cw s v w] have "length w = var_length v"
    by (simp add: solution_def)
  moreover from assms(1) m have "w \<in> set (words cw)" by (auto simp: solution_def)
  ultimately show thesis using w m that by blast
qed

lemma solution_agree:
  assumes "solution cw s" "map_of s x = Some wx" "map_of s y = Some wy"
    "y \<in> set (neighbors cw x)" "overlaps cw (x, y) = Some (Some (i, j))"
  shows "i < length wx \<and> j < length wy \<and> wx ! i = wy ! j"
proof -
  from assms(1) have c: "consistent_spec cw s" by (simp add: solution_def)
  from consistent_specD(3)[OF c map_of_SomeD[OF assms(2)] map_of_SomeD[OF assms(3)] assms(4,5)]
  show ?thesis .
qed

lemma solution_in_range:
  assumes "solution cw s"
  shows "overlaps_in_range cw"
  unfolding overlaps_in_range_def
proof (intro ballI)
  fix x y assume x: "x \<in> set (variables cw)" and y: "y \<in> set (neighbors cw x)"
  then have yv: "y \<in> set (variables cw)" by (simp add: neighbors_iff)
  from assms x obtain wx where wx: "map_of s x = Some wx" "length wx = var_length x"
    by (auto elim: solution_entry)
  from assms yv obtain wy where wy: "map_of s y = Some wy" "length wy = var_length y"
    by (auto elim: solution_entry)
  show "case overlaps cw (x, y) of
          Some (Some (i, j)) \<Rightarrow> i < var_length x \<and> j < var_length y
        | _ \<Rightarrow> True"
  proof (cases "overlaps cw (x, y)")
    case None
    then show ?thesis by simp
  next
    case (Some o1)
    show ?thesis
    proof (cases o1)
      case None
      with Some show ?thesis by simp
    next
      case (Some ij)
      obtain i j where ij: "ij = (i, j)" by (cases ij)
      with Some \<open>overlaps cw (x, y) = Some o1\<close> have o: "overlaps cw (x, y) = Some (Some (i, j))"
        by simp
      from solution_agree[OF assms wx(1) wy(1) y o] wx(2) wy(2) o show ?thesis by simp
    qed
  qed
qed

lemma within_initial:
  assumes "solution cw s"
  shows "within cw s (enforce_node_consistency (init_domains cw))"
  unfolding within_def
proof
  fix v assume v: "v \<in> set (variables cw)"
  from assms v obtain w where "map_of s v = Some w" "length w = var_length v" "w \<in> set (words cw)"
    by (auto elim: solution_entry)
  with v show "case map_of s v of
          None \<Rightarrow> False
        | Some w \<Rightarrow> (case map_of (enforce_node_consistency (init_domains cw)) v of
                       None \<Rightarrow> False | Some dv \<Rightarrow> w \<in> set dv)"
    by (simp add: map_of_enforce_node_consistency map_of_init_domains)
qed

lemma find_match_ok:
  "i < length w \<Longrightarrow> \<forall>u \<in> set ys. j < length u \<Longrightarrow> \<not> isl (find_match w i j ys)"
  by (induction ys) simp_all

lemma not_islE:
  assumes "\<not> isl r"
  obtains v where "r = Inr v"
  using assms by (cases r) simp_all

lemma to_remove_ok:
  assumes "map_of d y = Some dy" "\<forall>u \<in> set dy. j < length u"
  shows "\<forall>w \<in> set xs. i < length w \<Longrightarrow> \<not> isl (to_remove d y i j xs)"
proof (induction xs)
  case Nil
  then show ?case by simp
next
  case (Cons x xs)
  then have "i < length x" and IH: "\<not> isl (to_remove d y i j xs)" by simp_all
  from find_match_ok[OF this(1) assms(2)] obtain m where "find_match x i j dy = Inr m"
    by (rule not_islE)
  moreover from IH obtain r where "to_remove d y i j xs = Inr r"
    by (rule not_islE)
  ultimately show ?case using assms(1) by simp
qed

lemma revise_ok:
  assumes f: "fits cw d" and rng: "overlaps_in_range cw" and tot: "overlaps_total cw"
    and x: "x \<in> set (variables cw)" and y: "y \<in> set (variables cw)" and ne: "x \<noteq> y"
  shows "\<not> isl (revise cw d x y)"
proof (cases "overlaps cw (x, y)")
  case None
  moreover from tot x y ne have "overlaps cw (x, y) \<noteq> None"
    unfolding overlaps_total_def by blast
  ultimately show ?thesis by simp
next
  case (Some o1)
  show ?thesis
  proof (cases o1)
    case None
    with Some show ?thesis by (simp add: revise_def)
  next
    case (Some ij)
    obtain i j where ij: "ij = (i, j)" by (cases ij)
    with Some \<open>overlaps cw (x, y) = Some o1\<close> have o: "overlaps cw (x, y) = Some (Some (i, j))"
      by simp
    with y ne have n: "y \<in> set (neighbors cw x)" by (auto simp: neighbors_iff)
    from overlaps_in_rangeD[OF rng x n o] have r: "i < var_length x" "j < var_length y" by simp_all
    from f x obtain dx where dx: "map_of d x = Some dx" "\<forall>u \<in> set dx. length u = var_length x"
      by (rule fitsD)
    from f y obtain dy where dy: "map_of d y = Some dy" "\<forall>u \<in> set dy. length u = var_length y"
      by (rule fitsD)
    from dy(2) r(2) have "\<forall>u \<in> set dy. j < length u" by simp
    moreover from dx(2) r(1) have "\<forall>w \<in> set dx. i < length w" by simp
    ultimately have "\<not> isl (to_remove d y i j dx)"
      using to_remove_ok[OF dy(1)] by blast
    then obtain rm where "to_remove d y i j dx = Inr rm"
      by (rule not_islE)
    with o dx(1) show ?thesis by (simp add: revise_def)
  qed
qed

lemma revise_within:
  assumes sol: "solution cw s" and w: "within cw s d"
    and x: "x \<in> set (variables cw)" and y: "y \<in> set (variables cw)" and ne: "x \<noteq> y"
    and r: "revise cw d x y = Inr (b, d1)"
  shows "within cw s d1"
proof (cases b)
  case False
  with r revise_unchanged(1)[of cw d x y d1] w show ?thesis by simp
next
  case True
  with r have r': "revise cw d x y = Inr (True, d1)" by simp
  then obtain i j dx rm where *: "overlaps cw (x, y) = Some (Some (i, j))"
    "map_of d x = Some dx" "to_remove d y i j dx = Inr rm"
    "map_of d1 x = Some [w \<leftarrow> dx. w \<notin> set rm]"
    by (rule revise_changed)
  from * y ne have n: "y \<in> set (neighbors cw x)" by (auto simp: neighbors_iff)
  from w x obtain wx dx' where wx: "map_of s x = Some wx" "map_of d x = Some dx'" "wx \<in> set dx'"
    by (rule withinD)
  from w y obtain wy dy where wy: "map_of s y = Some wy" "map_of d y = Some dy" "wy \<in> set dy"
    by (rule withinD)
  from solution_agree[OF sol wx(1) wy(1) n *(1)] have ag: "wx ! i = wy ! j" by simp
  have keep: "wx \<notin> set rm"
  proof
    assume "wx \<in> set rm"
    from to_remove_drop[OF *(3) this] wy(2) have "\<forall>u \<in> set dy. wx ! i \<noteq> u ! j" by simp
    with wy(3) ag show False by auto
  qed
  show ?thesis
    unfolding within_def
  proof
    fix v assume v: "v \<in> set (variables cw)"
    from w v obtain wv dv where wv: "map_of s v = Some wv" "map_of d v = Some dv" "wv \<in> set dv"
      by (rule withinD)
    show "case map_of s v of
            None \<Rightarrow> False
          | Some w \<Rightarrow> (case map_of d1 v of None \<Rightarrow> False | Some dv \<Rightarrow> w \<in> set dv)"
    proof (cases "v = x")
      case True
      with wx *(2,4) keep show ?thesis by simp
    next
      case False
      from revise_other[OF r False] wv show ?thesis by simp
    qed
  qed
qed

lemma ac3_loop_ok:
  assumes sol: "solution cw s" and tot: "overlaps_total cw"
  shows "fits cw d \<Longrightarrow> within cw s d \<Longrightarrow>
         \<forall>(x, y) \<in> set queue. x \<in> set (variables cw) \<and> y \<in> set (variables cw) \<and> x \<noteq> y \<Longrightarrow>
         \<exists>t. ac3_loop cw d queue = Inr t \<and> fits cw (snd t) \<and> within cw s (snd t)"
  using assms
proof (induction cw d queue rule: ac3_loop.induct)
  case (1 cw d)
  then show ?case by simp
next
  case (2 cw d x y queue)
  note f = \<open>fits cw d\<close> and w = \<open>within cw s d\<close>
  note sol = \<open>solution cw s\<close> and tot = \<open>overlaps_total cw\<close>
  from "2.prems"(3) have x: "x \<in> set (variables cw)" and y: "y \<in> set (variables cw)"
    and ne: "x \<noteq> y"
    and q: "\<forall>(x, y) \<in> set queue. x \<in> set (variables cw) \<and> y \<in> set (variables cw) \<and> x \<noteq> y"
    by simp_all
  from revise_ok[OF f solution_in_range[OF sol] tot x y ne]
  obtain t where t: "revise cw d x y = Inr t" by (rule not_islE)
  obtain revised d1 where t': "t = (revised, d1)" by (cases t)
  note r = t[unfolded t']
  from fits_subset[OF f revise_subset[OF r]] have f1: "fits cw d1" .
  from revise_within[OF sol w x y ne r] have w1: "within cw s d1" .
  show ?case
  proof (cases revised)
    case False
    from "2.IH"(2)[OF r refl False f1 w1 q sol tot] r False show ?thesis by simp
  next
    case True
    from f1 x obtain dx where dx: "map_of d1 x = Some dx" by (rule fitsD)
    show ?thesis
    proof (cases "length dx = 0")
      case z: True
      with r True dx f1 w1 show ?thesis by simp
    next
      case nz: False
      let ?q = "queue @ map (\<lambda>neighbor. (neighbor, x)) (removeAll y (neighbors cw x))"
      have "\<forall>(x, y) \<in> set ?q. x \<in> set (variables cw) \<and> y \<in> set (variables cw) \<and> x \<noteq> y"
        using q x by (auto simp: neighbors_iff)
      from "2.IH"(1)[OF r refl True dx nz f1 w1 this sol tot] r True dx nz show ?thesis by simp
    qed
  qed
qed

lemma all_arcs_distinct_variables:
  "\<forall>(x, y) \<in> set (all_arcs cw). x \<in> set (variables cw) \<and> y \<in> set (variables cw) \<and> x \<noteq> y"
  by (auto simp: all_arcs_def neighbors_iff)

text \<open>\<open>agrees s a\<close>: every entry of the assignment \<open>a\<close> is the choice of \<open>s\<close>.\<close>

definition agrees :: "assignment \<Rightarrow> assignment \<Rightarrow> bool" where
  "agrees s a = (\<forall>(v, w) \<in> set a. map_of s v = Some w)"

lemma agreesD: "agrees s a \<Longrightarrow> (v, w) \<in> set a \<Longrightarrow> map_of s v = Some w"
  unfolding agrees_def by blast

lemma agrees_update:
  assumes "agrees s a" "map_of s var = Some w"
  shows "agrees s (AList.update var w a)"
proof -
  have "set (AList.update var w a) \<subseteq> insert (var, w) (set a)"
    by (induction a) auto
  with assms show ?thesis unfolding agrees_def by blast
qed

lemma agrees_distinct_words:
  assumes c: "consistent_spec cw s" and ag: "agrees s a" and d: "distinct (map fst a)"
  shows "distinct (map snd a)"
proof -
  from consistent_specD(1)[OF c] have inj_s: "inj_on snd (set s)" by (simp add: distinct_map)
  have "inj_on snd (set a)"
  proof (rule inj_onI)
    fix p q assume p: "p \<in> set a" and q: "q \<in> set a" and e: "snd p = snd q"
    obtain v1 w1 where p': "p = (v1, w1)" by (cases p)
    obtain v2 w2 where q': "q = (v2, w2)" by (cases q)
    from agreesD[OF ag] p p' have "(v1, w1) \<in> set s" by (auto dest: map_of_SomeD)
    moreover from agreesD[OF ag] q q' have "(v2, w2) \<in> set s" by (auto dest: map_of_SomeD)
    moreover from e p' q' have "w1 = w2" by simp
    ultimately have "(v1, w1) = (v2, w2)"
      using inj_onD[OF inj_s, of "(v1, w1)" "(v2, w2)"] by simp
    with p' q' show "p = q" by simp
  qed
  moreover from d have "distinct a" by (simp add: distinct_map)
  ultimately show ?thesis by (simp add: distinct_map)
qed

lemma check_neighbors_agrees:
  assumes c: "consistent_spec cw s" and ag: "agrees s a" and i: "i \<in> set (map fst a)"
  shows "set n \<subseteq> set (neighbors cw i) \<Longrightarrow> check_neighbors cw a i n = Inr True"
proof (induction n)
  case Nil
  then show ?case by simp
next
  case (Cons j n)
  then have IH: "check_neighbors cw a i n = Inr True" and nb: "j \<in> set (neighbors cw i)"
    by simp_all
  show ?case
  proof (cases "j \<in> set (map fst a)")
    case False
    with IH show ?thesis by simp
  next
    case True
    from nb obtain p q where o: "overlaps cw (i, j) = Some (Some (p, q))"
      by (auto simp: neighbors_iff)
    from i map_of_keyI[of i a] obtain wi where wi: "map_of a i = Some wi" by auto
    from True map_of_keyI[of j a] obtain wj where wj: "map_of a j = Some wj" by auto
    from agreesD[OF ag map_of_SomeD[OF wi]] have si: "(i, wi) \<in> set s" by (rule map_of_SomeD)
    from agreesD[OF ag map_of_SomeD[OF wj]] have sj: "(j, wj) \<in> set s" by (rule map_of_SomeD)
    from consistent_specD(3)[OF c si sj nb o]
    have "p < length wi" "q < length wj" "wi ! p = wj ! q" by simp_all
    with True o wi wj IH show ?thesis by simp
  qed
qed

lemma check_overlaps_True:
  "\<forall>i \<in> set ks. check_neighbors cw a i (neighbors cw i) = Inr True \<Longrightarrow>
     check_overlaps cw a ks = Inr True"
  by (induction ks) simp_all

lemma consistent_agrees:
  assumes c: "consistent_spec cw s" and ag: "agrees s a" and d: "distinct (map fst a)"
  shows "consistent cw a = Inr True"
proof -
  from agrees_distinct_words[OF c ag d]
  have 1: "length (map snd a) = length (remdups (map snd a))" by (simp add: distinct_remdups_id)
  have 2: "\<not> list_ex (\<lambda>(i, w). length w \<noteq> var_length i) a"
  proof -
    have "length w = var_length v" if "(v, w) \<in> set a" for v w
      using consistent_specD(2)[OF c map_of_SomeD[OF agreesD[OF ag that]]] .
    then show ?thesis by (auto simp: list_ex_iff)
  qed
  have "check_neighbors cw a i (neighbors cw i) = Inr True" if "i \<in> set (map fst a)" for i
    by (rule check_neighbors_agrees[OF c ag that]) simp
  then have 3: "check_overlaps cw a (map fst a) = Inr True"
    by (intro check_overlaps_True) blast
  from 1 2 3 show ?thesis by (simp add: consistent_def)
qed

section \<open>The value ordering raises no error on a fitting store\<close>

lemma neighbor_count_ok:
  assumes "overlaps cw (var, temp) = Some (Some (k, j))" "k < length v"
  shows "\<forall>u \<in> set us. j < length u \<Longrightarrow> \<not> isl (neighbor_count cw var temp v us cnt)"
  using assms by (induction us arbitrary: cnt) simp_all

lemma map_of_fold_assign:
  "v \<notin> set (map fst a) \<Longrightarrow>
     map_of (fold (\<lambda>(i, w) ds. AList.update i [w] ds) a d) v = map_of d v"
  by (induction a arbitrary: d) (auto simp: update_conv')

lemma odv_neighbor_ok:
  assumes f: "fits cw d" and rng: "overlaps_in_range cw" and var: "var \<in> set (variables cw)"
    and n: "temp \<in> set (neighbors cw var)" and len: "length v = var_length var"
    and eq: "temp \<notin> set (map fst a) \<longrightarrow> map_of dd temp = map_of d temp"
  shows "\<not> isl (odv_neighbor cw dd a var temp v)"
proof (cases "temp \<in> set (map fst a)")
  case True
  then show ?thesis by (simp add: odv_neighbor_def)
next
  case False
  from n obtain k j where o: "overlaps cw (var, temp) = Some (Some (k, j))"
    and tv: "temp \<in> set (variables cw)" by (auto simp: neighbors_iff)
  from overlaps_in_rangeD[OF rng var n o] have r: "k < var_length var" "j < var_length temp"
    by simp_all
  from f tv obtain dt where dt: "map_of d temp = Some dt" "\<forall>u \<in> set dt. length u = var_length temp"
    by (rule fitsD)
  from dt(2) r(2) have "\<forall>u \<in> set dt. j < length u" by simp
  moreover from r(1) len have "k < length v" by simp
  ultimately have "\<not> isl (neighbor_count cw var temp v dt 0)"
    using neighbor_count_ok[OF o] by blast
  with False eq dt(1) show ?thesis by (simp add: odv_neighbor_def)
qed

lemma value_loop_ok:
  "\<forall>i \<in> set ns. \<not> isl (odv_neighbor cw d a var i val) \<Longrightarrow>
     \<not> isl (value_loop cw d a vars var val ns cnt)"
proof (induction ns arbitrary: cnt)
  case Nil
  then show ?case by simp
next
  case (Cons i ns)
  then have "\<not> isl (odv_neighbor cw d a var i val)" by simp
  then obtain c where c: "odv_neighbor cw d a var i val = Inr c" by (rule not_islE)
  from Cons have IH: "\<not> isl (value_loop cw d a vars var val ns k)" for k by simp
  from c IH show ?case by simp
qed

lemma odv_value_ok:
  assumes f: "fits cw d" and rng: "overlaps_in_range cw" and var: "var \<in> set (variables cw)"
    and len: "length val = var_length var"
    and eq: "\<forall>v. v \<notin> set (map fst a) \<longrightarrow> map_of dcur v = map_of d v"
    and cur: "map_of dcur var = Some temp"
  shows "\<exists>cnt dn. odv_value cw dcur a vars var val = Inr (cnt, dn) \<and> map_of dn = map_of dcur"
proof -
  let ?d1 = "AList.update var [val] dcur"
  have "\<not> isl (odv_neighbor cw ?d1 a var i val)" if "i \<in> set (neighbors cw var)" for i
  proof (rule odv_neighbor_ok[OF f rng var that len])
    from that have "i \<noteq> var" by (simp add: neighbors_iff)
    with eq show "i \<notin> set (map fst a) \<longrightarrow> map_of ?d1 i = map_of d i"
      by (simp add: update_conv')
  qed
  then have "\<not> isl (value_loop cw ?d1 a vars var val (neighbors cw var) 0)"
    by (intro value_loop_ok) blast
  then obtain cnt where c: "value_loop cw ?d1 a vars var val (neighbors cw var) 0 = Inr cnt"
    by (rule not_islE)
  from cur have "map_of (AList.update var temp ?d1) = map_of dcur"
    by (auto simp: update_conv')
  with c cur show ?thesis by (simp add: odv_value_def)
qed

lemma value_keys_ok:
  assumes f: "fits cw d" and rng: "overlaps_in_range cw" and var: "var \<in> set (variables cw)"
    and eq: "\<forall>v. v \<notin> set (map fst a) \<longrightarrow> map_of d1 v = map_of d v"
    and cur: "map_of d1 var = Some temp"
  shows "\<forall>val \<in> set vals. length val = var_length var \<Longrightarrow> map_of dcur = map_of d1 \<Longrightarrow>
         \<not> isl (value_keys cw a vars var vals dcur)"
proof (induction vals arbitrary: dcur)
  case Nil
  then show ?case by simp
next
  case (Cons val vals)
  from Cons.prems have len: "length val = var_length var"
    and rest: "\<forall>val \<in> set vals. length val = var_length var" by simp_all
  from Cons.prems(2) eq have eq': "\<forall>v. v \<notin> set (map fst a) \<longrightarrow> map_of dcur v = map_of d v"
    by simp
  from Cons.prems(2) cur have cur': "map_of dcur var = Some temp" by simp
  from odv_value_ok[OF f rng var len eq' cur', of vars] obtain cnt dn where
    v: "odv_value cw dcur a vars var val = Inr (cnt, dn)" and m: "map_of dn = map_of dcur"
    by blast
  from m Cons.prems(2) have "map_of dn = map_of d1" by simp
  from Cons.IH[OF rest this] obtain t where "value_keys cw a vars var vals dn = Inr t"
    by (rule not_islE)
  with v show ?case by (cases t) simp
qed

lemma order_domain_values_ok:
  assumes f: "fits cw d" and rng: "overlaps_in_range cw" and var: "var \<in> set (variables cw)"
    and un: "var \<notin> set (map fst a)"
  shows "\<exists>vals. order_domain_values cw d var a = Inr (vals, d) \<and> map_of d var = Some vals"
proof -
  from f var obtain dv where dv: "map_of d var = Some dv" "\<forall>u \<in> set dv. length u = var_length var"
    by (rule fitsD)
  show ?thesis
  proof (cases "dv = []")
    case True
    with dv(1) show ?thesis by (simp add: order_domain_values_def)
  next
    case False
    let ?d1 = "fold (\<lambda>(i, w) ds. AList.update i [w] ds) a d"
    let ?vars = "[v \<leftarrow> variables cw. v \<notin> set (map fst a)]"
    have eq: "\<forall>v. v \<notin> set (map fst a) \<longrightarrow> map_of ?d1 v = map_of d v"
      by (simp add: map_of_fold_assign)
    with un dv(1) have cur: "map_of ?d1 var = Some dv" by simp
    from value_keys_ok[OF f rng var eq cur dv(2) refl, of ?vars]
    obtain t where t: "value_keys cw a ?vars var dv ?d1 = Inr t" by (rule not_islE)
    obtain ks d2 where "t = (ks, d2)" by (cases t)
    with t False dv(1) cur show ?thesis
      by (simp add: order_domain_values_def Let_def)
  qed
qed

section \<open>The search finds an assignment when one exists\<close>

lemma consistent_result:
  assumes "overlaps_in_range cw" "fst ` set a \<subseteq> set (variables cw)"
  obtains c where "consistent cw a = Inr c"
  using consistent_no_error[OF assms] by (cases "consistent cw a") auto

lemma backtrack_finds:
  "solution cw s \<Longrightarrow> fits cw d \<Longrightarrow> within cw s d \<Longrightarrow> distinct (map fst a) \<Longrightarrow>
     fst ` set a \<subseteq> set (variables cw) \<Longrightarrow>
     \<exists>t. backtrack cw d a = Inr t \<and> (agrees s a \<longrightarrow> fst t)"
  "solution cw s \<Longrightarrow> fits cw d \<Longrightarrow> within cw s d \<Longrightarrow> distinct (map fst a) \<Longrightarrow>
     fst ` set a \<subseteq> set (variables cw) \<Longrightarrow> var \<in> set (variables cw) \<Longrightarrow>
     var \<notin> set (map fst a) \<Longrightarrow>
     \<exists>t. backtrack_loop cw d var vals a = Inr t \<and>
         (agrees s a \<and> (\<exists>w. map_of s var = Some w \<and> w \<in> set vals) \<longrightarrow> fst t)"
proof (induction cw d a and cw d var vals a rule: backtrack_backtrack_loop.induct)
  case (1 cw d a)
  note sol = \<open>solution cw s\<close> and f = \<open>fits cw d\<close> and w = \<open>within cw s d\<close>
    and da = \<open>distinct (map fst a)\<close> and keys = \<open>fst ` set a \<subseteq> set (variables cw)\<close>
  from sol have rng: "overlaps_in_range cw" by (rule solution_in_range)
  from sol have cs: "consistent_spec cw s" by (simp add: solution_def)
  from rng keys obtain c where c: "consistent cw a = Inr c" by (rule consistent_result)
  show ?case
  proof (cases c)
    case False
    have "\<not> agrees s a"
    proof
      assume "agrees s a"
      from consistent_agrees[OF cs this da] c False show False by simp
    qed
    moreover from c False have "backtrack cw d a = Inr (False, a, d)" by simp
    ultimately show ?thesis by (intro exI[of _ "(False, a, d)"]) simp
  next
    case True
    show ?thesis
    proof (cases "assignment_complete cw a")
      case comp: True
      with c True have "backtrack cw d a = Inr (True, a, d)" by simp
      then show ?thesis by (intro exI[of _ "(True, a, d)"]) simp
    next
      case ncomp: False
      from select_unassigned_variable_ok[OF fits_keys[OF f] ncomp] obtain var where
        sel: "select_unassigned_variable cw d a = Inr (Some var)" by blast
      from select_unassigned_variable_Some[OF sel]
      have var: "var \<in> set (variables cw)" and un: "var \<notin> set (map fst a)" by simp_all
      from order_domain_values_ok[OF f rng var un] obtain vals where
        o: "order_domain_values cw d var a = Inr (vals, d)" and dv: "map_of d var = Some vals"
        by blast
      from True have nn: "\<not> \<not> c" by simp
      from "1.IH"[OF c nn ncomp sel refl o refl sol f w da keys var un]
      obtain t where t: "backtrack_loop cw d var vals a = Inr t"
        and ft: "agrees s a \<and> (\<exists>w. map_of s var = Some w \<and> w \<in> set vals) \<longrightarrow> fst t"
        by blast
      from w var obtain wv dv' where "map_of s var = Some wv" "map_of d var = Some dv'"
        "wv \<in> set dv'" by (rule withinD)
      with dv have "\<exists>w. map_of s var = Some w \<and> w \<in> set vals" by simp
      with ft have "agrees s a \<longrightarrow> fst t" by simp
      moreover from c True ncomp sel o t have "backtrack cw d a = Inr t" by simp
      ultimately show ?thesis by (intro exI[of _ t]) simp
    qed
  qed
next
  case (2 cw d var a)
  show ?case by (intro exI[of _ "(False, a, d)"]) simp
next
  case (3 cw d var i rest a)
  note sol = \<open>solution cw s\<close> and f = \<open>fits cw d\<close> and w = \<open>within cw s d\<close>
    and da = \<open>distinct (map fst a)\<close> and keys = \<open>fst ` set a \<subseteq> set (variables cw)\<close>
    and var = \<open>var \<in> set (variables cw)\<close> and un = \<open>var \<notin> set (map fst a)\<close>
  have du: "distinct (map fst (AList.update var i a))" using da by (rule distinct_update)
  have ku: "fst ` set (AList.update var i a) \<subseteq> set (variables cw)"
    using keys var by (simp add: dom_update)
  from "3.IH"(1)[OF sol f w du ku] obtain t1 where
    t1: "backtrack cw d (AList.update var i a) = Inr t1"
    and f1: "agrees s (AList.update var i a) \<longrightarrow> fst t1" by blast
  obtain found a1 d1 where t1': "t1 = (found, a1, d1)" by (cases t1)
  show ?case
  proof (cases found)
    case True
    with t1 t1' have "backtrack_loop cw d var (i # rest) a = Inr (True, a1, d1)" by simp
    then show ?thesis by (intro exI[of _ "(True, a1, d1)"]) simp
  next
    case False
    with t1 t1' have b: "backtrack cw d (AList.update var i a) = Inr (False, a1, d1)" by simp
    from backtrack_failure_restores(1)[OF b] have a1: "a1 = AList.update var i a" and d1: "d1 = d"
      by simp_all
    from a1 un have del: "AList.delete var a1 = a" by (simp add: delete_update_notin)
    from un have un': "var \<notin> set (map fst (AList.delete var a1))" by (simp add: del)
    from "3.IH"(2)[OF t1[unfolded t1'] refl refl False sol f[folded d1] w[folded d1]
        da[folded del] keys[folded del] var un']
    obtain t where t: "backtrack_loop cw d1 var rest (AList.delete var a1) = Inr t"
      and ft: "agrees s (AList.delete var a1) \<and> (\<exists>w. map_of s var = Some w \<and> w \<in> set rest)
                 \<longrightarrow> fst t"
      by blast
    from t1 t1' False t have res: "backtrack_loop cw d var (i # rest) a = Inr t" by simp
    have "fst t" if ag: "agrees s a" and ex: "\<exists>w. map_of s var = Some w \<and> w \<in> set (i # rest)"
    proof -
      from ex obtain wv where wv: "map_of s var = Some wv" "wv \<in> set (i # rest)" by blast
      have "wv \<noteq> i"
      proof
        assume "wv = i"
        with agrees_update[OF ag wv(1)] f1 t1' False show False by simp
      qed
      with wv have "\<exists>w. map_of s var = Some w \<and> w \<in> set rest" by auto
      with ft ag del show ?thesis by simp
    qed
    with res show ?thesis by (intro exI[of _ t]) simp
  qed
qed

lemma agrees_empty: "agrees s []"
  by (simp add: agrees_def)

text \<open>
  Claim C2. When the overlap table has an entry for every pair of different variables
  and some assignment of words of the word list is complete and consistent, then
  \<^verbatim>\<open>solve()\<close> on a new creator returns a complete consistent assignment, not the failure
  value.
\<close>

theorem solve_complete:
  assumes tot: "overlaps_total cw" and sol: "solution cw s"
  shows "\<exists>r. solve cw (init_domains cw) = Inr (Some r) \<and> complete_spec cw r \<and>
              consistent_spec cw r"
proof -
  let ?d1 = "enforce_node_consistency (init_domains cw)"
  from ac3_loop_ok[OF sol tot fits_initial within_initial[OF sol] all_arcs_distinct_variables]
  obtain t2 where ac: "ac3 cw ?d1 None = Inr t2" and f2: "fits cw (snd t2)"
    and w2: "within cw s (snd t2)" by (auto simp: ac3_def)
  obtain ok d2 where t2: "t2 = (ok, d2)" by (cases t2)
  from backtrack_finds(1)[OF sol f2 w2, of "[]"] agrees_empty t2
  obtain t where b: "backtrack cw d2 [] = Inr t" and ft: "fst t" by auto
  obtain found r d3 where t: "t = (found, r, d3)" by (cases t)
  with b ft have b': "backtrack cw d2 [] = Inr (True, r, d3)" by simp
  with ac t2 have "solve cw (init_domains cw) = Inr (Some r)"
    by (simp add: solve_def del: backtrack.simps)
  moreover from backtrack_success(1)[OF b']
  have "consistent cw r = Inr True" "assignment_complete cw r" "distinct (map fst r)" by simp_all
  then have "complete_spec cw r \<and> consistent_spec cw r"
    by (simp add: consistent_True_spec assignment_complete_spec)
  ultimately show ?thesis by blast
qed

theorem solve_complete_witness:
  "overlaps_total (corner fruit) \<and>
   solution (corner fruit) [(across2, ''AS''), (down2, ''AT'')] \<and>
   solve (corner fruit) (init_domains (corner fruit)) = Inr (Some [(across2, ''AT''), (down2, ''AS'')]) \<and>
   complete_spec (corner fruit) [(across2, ''AT''), (down2, ''AS'')] \<and>
   consistent_spec (corner fruit) [(across2, ''AT''), (down2, ''AS'')]"
proof -
  have t: "overlaps_total (corner fruit)" by code_simp
  have s: "solution (corner fruit) [(across2, ''AS''), (down2, ''AT'')]" by code_simp
  have v: "solve (corner fruit) (init_domains (corner fruit))
             = Inr (Some [(across2, ''AT''), (down2, ''AS'')])" by code_simp
  from solve_complete[OF t s] t s v show ?thesis by auto
qed

end
